theory Spec2Isabelle
  imports Main "HOL-Library.Multiset"
begin

section \<open>Python strings\<close>

text \<open>
  A Python \<open>str\<close> is a sequence of Unicode code points, so it is modelled as a list of
  natural numbers (the regular expressions of the converter range over code points
  above 255, which a byte string could not express).
\<close>

type_synonym pystr = "nat list"

definition asc :: "string \<Rightarrow> pystr" where
  "asc s = map of_char s"

text \<open>
  \<open>Py_UNICODE_ISSPACE\<close>: the test behind \<open>str.strip()\<close>, \<open>str.isspace()\<close> and the
  class \<open>\s\<close> of \<open>re\<close> on \<open>str\<close> patterns. U+0009..U+000D, U+001C..U+0020, U+0085,
  U+00A0, U+1680, U+2000..U+200A, U+2028, U+2029, U+202F, U+205F, U+3000.
\<close>

definition is_space :: "nat \<Rightarrow> bool" where
  "is_space c \<longleftrightarrow>
     (9 \<le> c \<and> c \<le> 13) \<or> (28 \<le> c \<and> c \<le> 32) \<or> c = 133 \<or> c = 160 \<or> c = 5760 \<or>
     (8192 \<le> c \<and> c \<le> 8202) \<or> c = 8232 \<or> c = 8233 \<or> c = 8239 \<or> c = 8287 \<or> c = 12288"

text \<open>\<open>str.strip()\<close> with no argument.\<close>

definition strip :: "pystr \<Rightarrow> pystr" where
  "strip s = rev (dropWhile is_space (rev (dropWhile is_space s)))"

text \<open>
  The line boundaries of \<open>str.splitlines()\<close>: LF, VT, FF, CR, FS, GS, RS, NEL, LS, PS;
  CR LF is one boundary.
\<close>

definition is_linebreak :: "nat \<Rightarrow> bool" where
  "is_linebreak c \<longleftrightarrow>
     (10 \<le> c \<and> c \<le> 13) \<or> (28 \<le> c \<and> c \<le> 30) \<or> c = 133 \<or> c = 8232 \<or> c = 8233"

text \<open>
  \<open>splitlines_go after_cr cur rest\<close>: \<open>cur\<close> is the line being read, \<open>after_cr\<close> says
  that the previous character was a CR, whose LF belongs to the same boundary. A last
  line without characters is not produced.
\<close>

fun splitlines_go :: "bool \<Rightarrow> pystr \<Rightarrow> pystr \<Rightarrow> pystr list" where
  "splitlines_go after_cr cur [] = (if cur = [] then [] else [cur])"
| "splitlines_go after_cr cur (c # cs) =
     (if after_cr \<and> c = 10 then splitlines_go False cur cs
      else if is_linebreak c then cur # splitlines_go (c = 13) [] cs
      else splitlines_go False (cur @ [c]) cs)"

definition splitlines :: "pystr \<Rightarrow> pystr list" where
  "splitlines s = splitlines_go False [] s"

text \<open>\<open>sep.join(xs)\<close>.\<close>

fun join :: "pystr \<Rightarrow> pystr list \<Rightarrow> pystr" where
  "join sep [] = []"
| "join sep [x] = x"
| "join sep (x # y # ys) = x @ sep @ join sep (y # ys)"

text \<open>\<open>s.endswith(suffix)\<close>, and with a tuple of suffixes.\<close>

definition endswith :: "pystr \<Rightarrow> pystr \<Rightarrow> bool" where
  "endswith s suf \<longleftrightarrow> length suf \<le> length s \<and> drop (length s - length suf) s = suf"

definition endswith_any :: "pystr \<Rightarrow> pystr list \<Rightarrow> bool" where
  "endswith_any s sufs \<longleftrightarrow> list_ex (endswith s) sufs"

definition startswith :: "pystr \<Rightarrow> pystr \<Rightarrow> bool" where
  "startswith s pre \<longleftrightarrow> take (length pre) s = pre"

text \<open>
  \<open>s.replace(old, new)\<close>: the occurrences of \<open>old\<close> are found from left to right and do
  not overlap; an empty \<open>old\<close> matches before every character and at the end.
\<close>

function py_replace :: "pystr \<Rightarrow> pystr \<Rightarrow> pystr \<Rightarrow> pystr" where
  "py_replace old new s =
     (if old = [] then new @ concat (map (\<lambda>c. c # new) s)
      else if s = [] then []
      else if startswith s old then new @ py_replace old new (drop (length old) s)
      else hd s # py_replace old new (tl s))"
  by pat_completeness auto
termination
  by (relation "measure (\<lambda>(old, new, s). length s)") auto

section \<open>Regular-expression substitutions of the converter\<close>

text \<open>The character class \<open>[U+4E00-U+9FA5]\<close>.\<close>

definition is_cjk :: "nat \<Rightarrow> bool" where
  "is_cjk c \<longleftrightarrow> 19968 \<le> c \<and> c \<le> 40869"

text \<open>
  One match of \<open>([U+4E00-U+9FA5])\s+([U+4E00-U+9FA5])\<close> at the start of a string: the two
  groups and the text after the match. \<open>\s+\<close> is greedy, and giving characters back
  cannot help, since the character after a shorter run is a space.
\<close>

definition match_cjk_gap :: "pystr \<Rightarrow> (nat \<times> nat \<times> pystr) option" where
  "match_cjk_gap s =
     (case s of
        [] \<Rightarrow> None
      | c # cs \<Rightarrow>
          if is_cjk c \<and> takeWhile is_space cs \<noteq> [] then
            (case dropWhile is_space cs of
               [] \<Rightarrow> None
             | d # ds \<Rightarrow> if is_cjk d then Some (c, d, ds) else None)
          else None)"

lemma match_cjk_gap_shorter:
  "match_cjk_gap s = Some (a, b, r) \<Longrightarrow> length r < length s"
proof -
  assume m: "match_cjk_gap s = Some (a, b, r)"
  then obtain c cs where s: "s = c # cs" and d: "dropWhile is_space cs = b # r"
    by (auto simp: match_cjk_gap_def split: list.splits if_splits)
  have "length (dropWhile is_space cs) \<le> length cs"
    by (rule length_dropWhile_le)
  with s d show ?thesis by simp
qed

text \<open>
  \<open>re.sub(r"([U+4E00-U+9FA5])\s+([U+4E00-U+9FA5])", r"\1\2", text)\<close>: the text is scanned
  from left to right; a match is replaced by its two groups and the scan goes on after
  the match, otherwise one character is copied.
\<close>

function clean_chinese_spacing :: "pystr \<Rightarrow> pystr" where
  "clean_chinese_spacing [] = []"
| "clean_chinese_spacing (c # cs) =
     (case match_cjk_gap (c # cs) of
        Some (g1, g2, rest) \<Rightarrow> g1 # g2 # clean_chinese_spacing rest
      | None \<Rightarrow> c # clean_chinese_spacing cs)"
  by pat_completeness auto
termination
  by (relation "measure length") (auto dest: match_cjk_gap_shorter)

text \<open>\<open>re.sub(r"\s+", " ", ln)\<close>: every maximal run of spaces becomes one U+0020.\<close>

function collapse_spaces :: "pystr \<Rightarrow> pystr" where
  "collapse_spaces [] = []"
| "collapse_spaces (c # cs) =
     (if is_space c then 32 # collapse_spaces (dropWhile is_space cs)
      else c # collapse_spaces cs)"
  by pat_completeness auto
termination
  by (relation "measure length") (auto simp: length_dropWhile_le less_Suc_eq_le)

declare py_replace.simps [simp del]

section \<open>Text reconstruction\<close>

text \<open>
  The tuple \<open>end_punct\<close> of \<open>_format_page_text\<close>, in the order of the source: U+3002,
  U+FF01, U+FF1F, \<open>!\<close>, \<open>?\<close>, U+FF1A, \<open>:\<close>, U+FF1B, \<open>;\<close>, U+2026, U+201D, the double
  quote, U+FF09, \<open>)\<close>.
\<close>

definition end_punct :: "pystr list" where
  "end_punct = [[12290], [65281], [65311], [33], [63], [65306], [58], [65307], [59],
                [8230], [8221], [34], [65289], [41]]"

text \<open>
  The loop \<open>for ln in lines\<close> of \<open>_format_page_text\<close>, with its two variables \<open>merged\<close>
  and \<open>buf\<close>.
\<close>

fun merge_lines :: "pystr list \<Rightarrow> pystr list \<Rightarrow> pystr \<Rightarrow> pystr list \<times> pystr" where
  "merge_lines [] merged buf = (merged, buf)"
| "merge_lines (ln0 # lns) merged buf =
     (let ln = collapse_spaces (clean_chinese_spacing ln0) in
      if buf = [] then merge_lines lns merged ln
      else if endswith_any buf end_punct then merge_lines lns (merged @ [buf]) ln
      else merge_lines lns merged (buf @ [32] @ ln))"

definition page_lines :: "pystr \<Rightarrow> pystr list" where
  "page_lines text = map strip (filter (\<lambda>ln. strip ln \<noteq> []) (splitlines text))"

definition page_paragraphs :: "pystr \<Rightarrow> pystr list" where
  "page_paragraphs text =
     (case merge_lines (page_lines text) [] [] of
        (merged, buf) \<Rightarrow> if buf \<noteq> [] then merged @ [buf] else merged)"

definition format_page_text :: "pystr \<Rightarrow> pystr" where
  "format_page_text text0 =
     (let text = strip text0 in
      if text = [] then [] else join [10, 10] (page_paragraphs text))"

section \<open>Recognition engines\<close>

datatype error =
    FileNotFoundError
  | ValueError_no_pages
  | ValueError_max_workers
  | RuntimeError_paddle
  | RuntimeError_fitz
  | RuntimeError_ocrmac
  | EngineError nat
  | NeverCompleted

text \<open>
  What the converter calls and does not define. \<open>PaddleOCR\<close>, \<open>fitz\<close> and \<open>ocrmac\<close> are
  \<open>None\<close> when the import failed. An engine returns a text or raises (\<open>EngineError\<close>).
  \<open>PaddleOCR\<close> gives, for a language and an image, pages of recognised lines (the text
  of each line; the score is not used). \<open>unicode_lower s i\<close> is what \<open>str.lower()\<close> makes
  of the character at index \<open>i\<close> of \<open>s\<close> when that character is not ASCII.
\<close>

record 'img env =
  path_exists :: "pystr \<Rightarrow> bool"
  abspath :: "pystr \<Rightarrow> pystr"
  unicode_lower :: "pystr \<Rightarrow> nat \<Rightarrow> pystr"
  convert_from_path :: "pystr \<Rightarrow> int \<Rightarrow> pystr option \<Rightarrow> 'img list"
  image_to_string :: "'img \<Rightarrow> pystr \<Rightarrow> error + pystr"
  PaddleOCR :: "(pystr \<Rightarrow> 'img \<Rightarrow> error + pystr list list) option"
  pdfplumber_pages :: "pystr \<Rightarrow> pystr option list"
  fitz :: "(pystr \<Rightarrow> int \<Rightarrow> 'img list) option"
  ocrmac :: "('img \<Rightarrow> error + pystr list) option"

text \<open>\<open>x or ""\<close> on a string.\<close>

definition or_empty :: "pystr \<Rightarrow> pystr" where
  "or_empty t = (if t = [] then [] else t)"

definition ocr_image_to_text_tesseract :: "'img env \<Rightarrow> 'img \<Rightarrow> pystr \<Rightarrow> error + pystr" where
  "ocr_image_to_text_tesseract E img lang =
     (case image_to_string E img lang of Inl e \<Rightarrow> Inl e | Inr text \<Rightarrow> Inr (strip text))"

definition get_paddle_ocr :: "'img env \<Rightarrow> pystr \<Rightarrow> error + ('img \<Rightarrow> error + pystr list list)" where
  "get_paddle_ocr E lang =
     (case PaddleOCR E of None \<Rightarrow> Inl RuntimeError_paddle | Some mk \<Rightarrow> Inr (mk lang))"

definition ocr_image_to_text_paddle :: "'img env \<Rightarrow> 'img \<Rightarrow> pystr \<Rightarrow> error + pystr" where
  "ocr_image_to_text_paddle E img lang =
     (case get_paddle_ocr E lang of
        Inl e \<Rightarrow> Inl e
      | Inr ocr \<Rightarrow>
          (case ocr img of
             Inl e \<Rightarrow> Inl e
           | Inr result \<Rightarrow> Inr (strip (join [10] (concat result)))))"

text \<open>The recognition of one page inside \<open>worker\<close>: the engine is chosen by name.\<close>

definition recognize :: "'img env \<Rightarrow> pystr \<Rightarrow> pystr \<Rightarrow> 'img \<Rightarrow> error + pystr" where
  "recognize E ocr_engine lang img =
     (case (if ocr_engine = asc ''paddle'' then ocr_image_to_text_paddle E img lang
            else ocr_image_to_text_tesseract E img lang) of
        Inl e \<Rightarrow> Inl e
      | Inr text \<Rightarrow> Inr (or_empty text))"

section \<open>The parallel page processor\<close>

text \<open>
  What a listener can observe: a call \<open>progress_callback(completed, total)\<close>, and the
  work on a page being done (its recognition or extraction has returned). The log
  orders the pages by the moment they finish.
\<close>

datatype event = Progress nat nat | PageWork nat

text \<open>
  The state the workers share: the counter \<open>processed\<close>, the log of events, and the
  futures of \<open>executor.map\<close>, one per submitted item, filled when its worker returns.
\<close>

record progress =
  processed :: nat
  log :: "event list"

record pool = progress +
  futures :: "nat \<rightharpoonup> error + nat \<times> pystr"

text \<open>
  \<open>worker\<close>: recognise, then (when a callback was given) increment and report under the
  lock. A raise in the recognition leaves the counter and the log as they are.
\<close>

definition worker ::
  "'img env \<Rightarrow> pystr \<Rightarrow> pystr \<Rightarrow> bool \<Rightarrow> nat \<Rightarrow> pool \<Rightarrow> nat \<times> 'img \<Rightarrow> pool \<times> (error + nat \<times> pystr)" where
  "worker E lang ocr_engine has_callback tot st item =
     (case item of (idx, img) \<Rightarrow>
        (case recognize E ocr_engine lang img of
           Inl e \<Rightarrow> (st, Inl e)
         | Inr text \<Rightarrow>
             let st1 = st\<lparr>log := log st @ [PageWork idx]\<rparr>;
                 st2 = (if has_callback
                        then st1\<lparr>processed := processed st1 + 1,
                                 log := log st1 @ [Progress (processed st1 + 1) tot]\<rparr>
                        else st1)
             in (st2, Inr (idx, text))))"

text \<open>
  The order in which the workers finish is not fixed by the program. It is a parameter:
  a list \<open>sched\<close> of page indices names the pages that finish first, in that order; the
  pages it does not name finish afterwards, by index. Every submitted item is run once,
  so every list describes a run and every permutation of the pages is described.
\<close>

definition completion_order :: "nat \<Rightarrow> nat list \<Rightarrow> nat list" where
  "completion_order n sched =
     remdups (filter (\<lambda>i. i < n) sched) @ filter (\<lambda>i. i \<notin> set sched) [0..<n]"

fun run_workers ::
  "'img env \<Rightarrow> pystr \<Rightarrow> pystr \<Rightarrow> bool \<Rightarrow> 'img list \<Rightarrow> nat list \<Rightarrow> pool \<Rightarrow> pool" where
  "run_workers E lang ocr_engine has_callback images [] st = st"
| "run_workers E lang ocr_engine has_callback images (i # order) st =
     (if i < length images then
        (case worker E lang ocr_engine has_callback (length images) st (i, images ! i) of
           (st', r) \<Rightarrow>
             run_workers E lang ocr_engine has_callback images order
               (st'\<lparr>futures := (futures st')(i \<mapsto> r)\<rparr>))
      else run_workers E lang ocr_engine has_callback images order st)"

text \<open>
  The loop \<open>for idx, text in executor.map(...): results[idx] = text\<close> of the caller: the
  futures are read in the order of submission, and the first one that holds an
  exception raises it.
\<close>

fun collect ::
  "(nat \<rightharpoonup> error + nat \<times> pystr) \<Rightarrow> nat list \<Rightarrow> pystr option list \<Rightarrow> error + pystr option list" where
  "collect fs [] results = Inr results"
| "collect fs (p # ps) results =
     (case fs p of
        None \<Rightarrow> Inl NeverCompleted
      | Some (Inl e) \<Rightarrow> Inl e
      | Some (Inr (idx, text)) \<Rightarrow> collect fs ps (results[idx := Some text]))"

text \<open>
  \<open>_ocr_pages_in_parallel\<close>. \<open>ThreadPoolExecutor\<close> refuses a bound that is not positive.
  The value is the list of texts and the log of events.
\<close>

definition ocr_pages_in_parallel ::
  "'img env \<Rightarrow> 'img list \<Rightarrow> pystr \<Rightarrow> pystr \<Rightarrow> int option \<Rightarrow> bool \<Rightarrow> nat list
     \<Rightarrow> error + pystr list \<times> event list" where
  "ocr_pages_in_parallel E images lang ocr_engine max_workers has_callback sched =
     (let tot = length images;
          results = replicate tot None;
          st0 = \<lparr>processed = 0,
                 log = (if has_callback then [Progress 0 tot] else []),
                 futures = Map.empty\<rparr>
      in if (case max_workers of None \<Rightarrow> False | Some w \<Rightarrow> w \<le> 0) then Inl ValueError_max_workers
         else
           let st = run_workers E lang ocr_engine has_callback images
                      (completion_order tot sched) st0
           in (case collect (futures st) [0..<tot] results of
                 Inl e \<Rightarrow> Inl e
               | Inr rs \<Rightarrow>
                   Inr (map (\<lambda>t. case t of None \<Rightarrow> [] | Some s \<Rightarrow> or_empty s) rs, log st)))"

section \<open>Text-layer extraction\<close>

text \<open>
  The body of the loop of \<open>_extract_text_layer_pages\<close> for one page, whose
  \<open>extract_text()\<close> gave \<open>extracted\<close> (\<open>None\<close> or a string): spacing repair, then the
  removal of the tokens, then the formatter, then \<open>strip\<close>.
\<close>

definition text_layer_page :: "pystr list option \<Rightarrow> bool \<Rightarrow> pystr option \<Rightarrow> pystr" where
  "text_layer_page remove_tokens auto_format extracted =
     (case extracted of
        None \<Rightarrow> []
      | Some content \<Rightarrow>
          if content = [] then []
          else
            let c1 = clean_chinese_spacing content;
                c2 = (case remove_tokens of
                        None \<Rightarrow> c1
                      | Some tokens \<Rightarrow>
                          if tokens = [] then c1
                          else foldl (\<lambda>c token. py_replace token [] c) c1 tokens);
                c3 = (if auto_format then format_page_text c2 else c2)
            in strip c3)"

record extraction = progress +
  texts :: "pystr list"

fun extract_pages ::
  "pystr list option \<Rightarrow> bool \<Rightarrow> bool \<Rightarrow> nat \<Rightarrow> nat \<Rightarrow> pystr option list \<Rightarrow> extraction \<Rightarrow> extraction" where
  "extract_pages remove_tokens has_callback auto_format tot i [] st = st"
| "extract_pages remove_tokens has_callback auto_format tot i (page # pages) st =
     (let st1 = st\<lparr>log := log st @ [PageWork i],
                   texts := texts st @ [text_layer_page remove_tokens auto_format page]\<rparr>;
          st2 = st1\<lparr>processed := processed st1 + 1\<rparr>;
          st3 = (if has_callback then st2\<lparr>log := log st2 @ [Progress (processed st2) tot]\<rparr>
                 else st2)
      in extract_pages remove_tokens has_callback auto_format tot (i + 1) pages st3)"

definition extract_text_layer_pages ::
  "'img env \<Rightarrow> pystr \<Rightarrow> pystr list option \<Rightarrow> bool \<Rightarrow> bool \<Rightarrow> extraction" where
  "extract_text_layer_pages E pdf_path remove_tokens has_callback auto_format =
     (let pages = pdfplumber_pages E pdf_path;
          tot = length pages;
          st0 = \<lparr>processed = 0,
                 log = (if has_callback then [Progress 0 tot] else []),
                 texts = []\<rparr>
      in extract_pages remove_tokens has_callback auto_format tot 0 pages st0)"

section \<open>The document and the three conversions\<close>

text \<open>
  The document as the converter builds it: the blocks added by \<open>add_paragraph\<close> and
  \<open>add_page_break\<close>, in order, and the fonts that \<open>_apply_default_font\<close> sets on the
  style Normal (\<open>None\<close>: what the template has).
\<close>

datatype block = Paragraph pystr | PageBreak

record document =
  default_font :: "(pystr \<times> int) option"
  east_asia_font :: "pystr option"
  body :: "block list"

definition Document :: document where
  "Document = \<lparr>default_font = None, east_asia_font = None, body = []\<rparr>"

definition apply_default_font :: "document \<Rightarrow> pystr \<Rightarrow> int \<Rightarrow> document" where
  "apply_default_font doc font_name font_size_pt =
     doc\<lparr>default_font := Some (font_name, font_size_pt), east_asia_font := Some font_name\<rparr>"

text \<open>
  The loop \<open>for idx, text in enumerate(page_texts, start=1)\<close> that the three conversions
  share, \<open>n\<close> being \<open>len(page_texts)\<close>.
\<close>

fun add_pages :: "nat \<Rightarrow> nat \<Rightarrow> pystr list \<Rightarrow> document \<Rightarrow> document" where
  "add_pages idx n [] doc = doc"
| "add_pages idx n (text # rest) doc =
     (let doc1 = doc\<lparr>body := body doc @ [Paragraph (or_empty text)]\<rparr>;
          doc2 = (if idx \<noteq> n then doc1\<lparr>body := body doc1 @ [PageBreak]\<rparr> else doc1)
      in add_pages (idx + 1) n rest doc2)"

text \<open>\<open>str.lower()\<close>: ASCII letters by the model, every other character by the table.\<close>

definition lower_char :: "'img env \<Rightarrow> pystr \<Rightarrow> nat \<Rightarrow> pystr" where
  "lower_char E s i =
     (let c = s ! i
      in if c < 128 then [if 65 \<le> c \<and> c \<le> 90 then c + 32 else c] else unicode_lower E s i)"

definition py_lower :: "'img env \<Rightarrow> pystr \<Rightarrow> pystr" where
  "py_lower E s = concat (map (lower_char E s) [0..<length s])"

text \<open>
  What a conversion leaves: the document saved at \<open>saved_path\<close>, the path it returns
  and the events of the run. A conversion that raises leaves no document.
\<close>

record saved =
  saved_path :: pystr
  saved_doc :: document
  returned_path :: pystr
  events :: "event list"

text \<open>The last four lines of each conversion.\<close>

definition save_docx :: "'img env \<Rightarrow> document \<Rightarrow> pystr \<Rightarrow> event list \<Rightarrow> saved" where
  "save_docx E doc output_path evs =
     (let output_path' = (if \<not> endswith (py_lower E output_path) (asc ''.docx'')
                          then output_path @ asc ''.docx'' else output_path)
      in \<lparr>saved_path = output_path', saved_doc = doc,
          returned_path = abspath E output_path', events = evs\<rparr>)"

definition pdf_to_images :: "'img env \<Rightarrow> pystr \<Rightarrow> int \<Rightarrow> pystr option \<Rightarrow> 'img list" where
  "pdf_to_images E pdf_path dpi poppler_path = convert_from_path E pdf_path dpi poppler_path"

definition extract_pdf_text_to_docx ::
  "'img env \<Rightarrow> pystr \<Rightarrow> pystr \<Rightarrow> pystr list option \<Rightarrow> bool \<Rightarrow> bool \<Rightarrow> pystr \<Rightarrow> int
     \<Rightarrow> error + saved" where
  "extract_pdf_text_to_docx E pdf_path output_path remove_tokens has_callback auto_format
       font_name font_size_pt =
     (if \<not> path_exists E pdf_path then Inl FileNotFoundError
      else
        let ex = extract_text_layer_pages E pdf_path remove_tokens has_callback auto_format;
            page_texts = texts ex;
            doc = apply_default_font Document font_name font_size_pt;
            doc' = add_pages 1 (length page_texts) page_texts doc
        in Inr (save_docx E doc' output_path (log ex)))"

definition convert_pdf_to_docx ::
  "'img env \<Rightarrow> pystr \<Rightarrow> pystr \<Rightarrow> pystr \<Rightarrow> int \<Rightarrow> pystr option \<Rightarrow> pystr \<Rightarrow> int option \<Rightarrow> bool
     \<Rightarrow> bool \<Rightarrow> pystr \<Rightarrow> int \<Rightarrow> nat list \<Rightarrow> error + saved" where
  "convert_pdf_to_docx E pdf_path output_path lang dpi poppler_path ocr_engine max_workers
       has_callback auto_format font_name font_size_pt sched =
     (if \<not> path_exists E pdf_path then Inl FileNotFoundError
      else
        let images = pdf_to_images E pdf_path dpi poppler_path
        in if images = [] then Inl ValueError_no_pages
           else
             (case ocr_pages_in_parallel E images lang ocr_engine max_workers has_callback sched of
                Inl e \<Rightarrow> Inl e
              | Inr (ocr_texts, evs) \<Rightarrow>
                  let page_texts = (if auto_format then map format_page_text ocr_texts
                                    else ocr_texts);
                      doc = apply_default_font Document font_name font_size_pt;
                      doc' = add_pages 1 (length page_texts) page_texts doc
                  in Inr (save_docx E doc' output_path evs)))"

text \<open>
  The loop over the pages of \<open>convert_pdf_to_docx_mac_vision\<close>: each page is rendered,
  recognised by \<open>ocrmac\<close> (which gives the recognised items, here their texts), and
  reported. A raise of the engine ends the conversion.
\<close>

definition mac_page_text :: "pystr list \<Rightarrow> pystr" where
  "mac_page_text results = (if results \<noteq> [] then join [10] results else [])"

fun mac_pages ::
  "('img \<Rightarrow> error + pystr list) \<Rightarrow> bool \<Rightarrow> nat \<Rightarrow> nat \<Rightarrow> 'img list \<Rightarrow> extraction
     \<Rightarrow> error + extraction" where
  "mac_pages ocr has_callback tot i [] st = Inr st"
| "mac_pages ocr has_callback tot i (page # pages) st =
     (case ocr page of
        Inl e \<Rightarrow> Inl e
      | Inr results \<Rightarrow>
          let page_text = mac_page_text results;
              st1 = st\<lparr>log := log st @ [PageWork i], texts := texts st @ [page_text]\<rparr>;
              st2 = st1\<lparr>processed := processed st1 + 1\<rparr>;
              st3 = (if has_callback then st2\<lparr>log := log st2 @ [Progress (processed st2) tot]\<rparr>
                     else st2)
          in mac_pages ocr has_callback tot (i + 1) pages st3)"

definition convert_pdf_to_docx_mac_vision ::
  "'img env \<Rightarrow> pystr \<Rightarrow> pystr \<Rightarrow> int \<Rightarrow> bool \<Rightarrow> bool \<Rightarrow> pystr \<Rightarrow> int \<Rightarrow> error + saved" where
  "convert_pdf_to_docx_mac_vision E pdf_path output_path dpi has_callback auto_format
       font_name font_size_pt =
     (case fitz E of
        None \<Rightarrow> Inl RuntimeError_fitz
      | Some fitz_open \<Rightarrow>
          (case ocrmac E of
             None \<Rightarrow> Inl RuntimeError_ocrmac
           | Some ocr \<Rightarrow>
               if \<not> path_exists E pdf_path then Inl FileNotFoundError
               else
                 let doc_pdf = fitz_open pdf_path dpi;
                     tot = length doc_pdf;
                     st0 = \<lparr>processed = 0,
                            log = (if has_callback then [Progress 0 tot] else []),
                            texts = []\<rparr>
                 in (case mac_pages ocr has_callback tot 0 doc_pdf st0 of
                       Inl e \<Rightarrow> Inl e
                     | Inr st \<Rightarrow>
                         let docx = apply_default_font Document font_name font_size_pt;
                             page_texts = (if auto_format then map format_page_text (texts st)
                                           else texts st);
                             docx' = add_pages 1 (length page_texts) page_texts docx
                         in Inr (save_docx E docx' output_path (log st)))))"

section \<open>Properties of texts, logs and documents\<close>

text \<open>
  \<open>no_space_run s\<close>: no two neighbours in \<open>s\<close> are both spaces. A tidy paragraph is
  not empty, neither starts nor ends with a space, has no run of spaces, and its only
  space character is U+0020 (so it holds no line break). A trimmed string is not empty
  and has no space at either end.
\<close>

fun no_space_run :: "pystr \<Rightarrow> bool" where
  "no_space_run (a # b # cs) = (\<not> (is_space a \<and> is_space b) \<and> no_space_run (b # cs))"
| "no_space_run cs = True"

definition tidy_paragraph :: "pystr \<Rightarrow> bool" where
  "tidy_paragraph p \<longleftrightarrow>
     p \<noteq> [] \<and> \<not> is_space (hd p) \<and> \<not> is_space (last p) \<and> no_space_run p \<and>
     list_all (\<lambda>c. is_space c \<longrightarrow> c = 32) p"

definition trimmed :: "pystr \<Rightarrow> bool" where
  "trimmed s \<longleftrightarrow> s \<noteq> [] \<and> \<not> is_space (hd s) \<and> \<not> is_space (last s)"

text \<open>
  Observers of a log: the arguments of the calls of the callback, in order, and the
  pages whose work was done, in order.
\<close>

fun callbacks :: "event list \<Rightarrow> (nat \<times> nat) list" where
  "callbacks [] = []"
| "callbacks (Progress c t # es) = (c, t) # callbacks es"
| "callbacks (PageWork i # es) = callbacks es"

fun page_works :: "event list \<Rightarrow> nat list" where
  "page_works [] = []"
| "page_works (PageWork i # es) = i # page_works es"
| "page_works (Progress c t # es) = page_works es"

text \<open>
  The events that the pages of \<open>order\<close> add to the log when they finish in that order,
  the counter being \<open>k\<close> before the first: the work on the page, then (with a callback)
  the report of the incremented counter.
\<close>

fun page_events :: "bool \<Rightarrow> nat \<Rightarrow> nat \<Rightarrow> nat list \<Rightarrow> event list" where
  "page_events cb tot k [] = []"
| "page_events cb tot k (i # order) =
     (if cb then PageWork i # Progress (k + 1) tot # page_events cb tot (k + 1) order
      else PageWork i # page_events cb tot k order)"

text \<open>A worker bound the pool accepts: none given, or at least one.\<close>

definition valid_workers :: "int option \<Rightarrow> bool" where
  "valid_workers w \<longleftrightarrow> (case w of None \<Rightarrow> True | Some k \<Rightarrow> 1 \<le> k)"

text \<open>
  A log of a run over \<open>N\<close> pages as the progress signal promises it: the first event
  is the call \<open>(0, N)\<close>; the work of every page occurs once; the calls have the
  completed counts \<open>0, 1, ..., N\<close> (one call after the first for every page, never
  decreasing), the total \<open>N\<close> each time, and the last call is \<open>(N, N)\<close>.
\<close>

definition progress_run :: "nat \<Rightarrow> event list \<Rightarrow> bool" where
  "progress_run N evs \<longleftrightarrow>
     take 1 evs = [Progress 0 N] \<and>
     mset (page_works evs) = mset [0..<N] \<and>
     (let cbs = callbacks evs
      in map fst cbs = [0..<Suc N] \<and> list_all (\<lambda>c. snd c = N) cbs \<and>
         length cbs = Suc N \<and> sorted (map fst cbs) \<and> last cbs = (N, N))"

text \<open>
  A small environment on which the conversions are evaluated: every path exists, the
  file \<open>two.pdf\<close> has two pages and every other file none, tesseract reads
  \<open>" p<k>.\\n"\<close> on page \<open>k\<close>, PaddleOCR is not installed, and no character outside
  ASCII changes in \<open>lower()\<close>.
\<close>

definition demo_env :: "nat env" where
  "demo_env =
     \<lparr>path_exists = (\<lambda>p. True),
      abspath = (\<lambda>p. 47 # p),
      unicode_lower = (\<lambda>s i. [s ! i]),
      convert_from_path = (\<lambda>p dpi poppler. if p = asc ''two.pdf'' then [1, 2] else []),
      image_to_string = (\<lambda>img lang. Inr ([32, 112, 48 + img, 46, 10])),
      PaddleOCR = None,
      pdfplumber_pages = (\<lambda>p. if p = asc ''two.pdf'' then [Some (asc ''a b''), None] else []),
      fitz = Some (\<lambda>p dpi. if p = asc ''two.pdf'' then [1, 2] else []),
      ocrmac = Some (\<lambda>img. Inr [[112, 48 + img]])\<rparr>"

text \<open>
  A path that ends with \<open>.docx\<close> in any letter case: its last five characters are a
  dot, \<open>d\<close> or \<open>D\<close>, \<open>o\<close> or \<open>O\<close>, \<open>c\<close> or \<open>C\<close>, \<open>x\<close> or \<open>X\<close>.
\<close>

definition has_docx_suffix :: "pystr \<Rightarrow> bool" where
  "has_docx_suffix p \<longleftrightarrow>
     (case rev p of
        c5 # c4 # c3 # c2 # c1 # stem \<Rightarrow>
          c1 = 46 \<and> (c2 = 100 \<or> c2 = 68) \<and> (c3 = 111 \<or> c3 = 79) \<and>
          (c4 = 99 \<or> c4 = 67) \<and> (c5 = 120 \<or> c5 = 88)
      | _ \<Rightarrow> False)"

text \<open>
  What the extension check needs of the lower-case table of the platform: a character
  outside ASCII becomes a string that is not empty and does not end with one of the
  characters of \<open>.docx\<close>. (In Unicode only the Kelvin sign and the dotted capital I
  produce an ASCII letter at all, \<open>k\<close> and \<open>i\<close>.)
\<close>

definition lower_table_ok :: "'img env \<Rightarrow> bool" where
  "lower_table_ok E \<longleftrightarrow>
     (\<forall>s i. i < length s \<longrightarrow> 128 \<le> s ! i \<longrightarrow>
        unicode_lower E s i \<noteq> [] \<and> last (unicode_lower E s i) \<notin> {46, 100, 111, 99, 120})"

text \<open>Case folding of the ASCII letters alone.\<close>

definition ascii_lower :: "nat \<Rightarrow> nat" where
  "ascii_lower c = (if 65 \<le> c \<and> c \<le> 90 then c + 32 else c)"

text \<open>
  \<open>lowered c p\<close>: the string \<open>p\<close> can be what \<open>lower()\<close> makes of the character \<open>c\<close>.
\<close>

definition lowered :: "nat \<Rightarrow> pystr \<Rightarrow> bool" where
  "lowered c p \<longleftrightarrow>
     (if c < 128 then p = [ascii_lower c] else p \<noteq> [] \<and> last p \<notin> {46, 100, 111, 99, 120})"

text \<open>
  The order of the transformations as the specification states it for a page with text:
  the tokens are removed from the raw text first, then the spacing is repaired, then
  the text is formatted. It is compared with \<open>text_layer_page\<close>.
\<close>

definition token_removal_first :: "pystr list \<Rightarrow> bool \<Rightarrow> pystr \<Rightarrow> pystr" where
  "token_removal_first tokens auto_format raw =
     (let c1 = foldl (\<lambda>c token. py_replace token [] c) raw tokens;
          c2 = clean_chinese_spacing c1;
          c3 = (if auto_format then format_page_text c2 else c2)
      in strip c3)"

text \<open>
  The blocks of a paginated document: one paragraph per page text, in order, and a page
  break after every paragraph but the last. \<open>paragraphs\<close> and \<open>page_breaks\<close> read the
  paragraph texts and count the breaks of a list of blocks.
\<close>

fun page_blocks :: "pystr list \<Rightarrow> block list" where
  "page_blocks [] = []"
| "page_blocks [t] = [Paragraph t]"
| "page_blocks (t # u # ts) = Paragraph t # PageBreak # page_blocks (u # ts)"

fun paragraphs :: "block list \<Rightarrow> pystr list" where
  "paragraphs [] = []"
| "paragraphs (Paragraph t # bs) = t # paragraphs bs"
| "paragraphs (PageBreak # bs) = paragraphs bs"

fun page_breaks :: "block list \<Rightarrow> nat" where
  "page_breaks [] = 0"
| "page_breaks (Paragraph t # bs) = page_breaks bs"
| "page_breaks (PageBreak # bs) = Suc (page_breaks bs)"

text \<open>
  A document is paginated for the page texts \<open>page_texts\<close> when its blocks are these
  paragraphs with the breaks between them: as many paragraphs as pages, in page order,
  and one break less than pages (none when there is no page, the document being empty).
\<close>

definition paginated :: "pystr list \<Rightarrow> document \<Rightarrow> bool" where
  "paginated page_texts doc \<longleftrightarrow>
     body doc = page_blocks page_texts \<and>
     paragraphs (body doc) = page_texts \<and>
     page_breaks (body doc) = length page_texts - 1"

text \<open>
  The result \<open>r\<close> of a conversion asked to write to \<open>output_path\<close>: the document is
  saved at the path itself when it ends with \<open>.docx\<close> in any letter case, and at the
  path with \<open>.docx\<close> appended otherwise; the path returned is the absolute form of the
  path saved; the path saved ends with \<open>.docx\<close> in some letter case.
\<close>

definition saved_as :: "'img env \<Rightarrow> pystr \<Rightarrow> saved \<Rightarrow> bool" where
  "saved_as E output_path r \<longleftrightarrow>
     saved_path r = (if has_docx_suffix output_path then output_path
                     else output_path @ asc ''.docx'') \<and>
     returned_path r = abspath E (saved_path r) \<and>
     has_docx_suffix (saved_path r)"

section \<open>The spacing repair\<close>

text \<open>
  C4. Idempotence of the spacing repair. The code is evaluated on three ideographs with
  a space after the first and after the second (U+4E2D, space, U+4E2D, space, U+4E2D). The
  first pass consumes the second ideograph as the end of its match, so the scan goes on
  behind it and the second space stays; a second pass removes it. Applying the repair
  twice does not give what applying it once gives.
\<close>

theorem clean_chinese_spacing_twice_differs:
  "clean_chinese_spacing [20013, 32, 20013, 32, 20013] = [20013, 20013, 32, 20013] \<and>
   clean_chinese_spacing (clean_chinese_spacing [20013, 32, 20013, 32, 20013])
     = [20013, 20013, 20013]"
  by (simp add: match_cjk_gap_def is_cjk_def is_space_def)

text \<open>
  C5. After one application of the repair no two ideographs are separated by spaces. The
  code is evaluated on U+4EBA, space, U+8BBE, space, U+597D: the result still has a space
  between the second and the third ideograph, and so does the result on every text that
  begins with an ideograph, spaces, an ideograph, spaces and an ideograph.
\<close>

theorem clean_chinese_spacing_leaves_space:
  "clean_chinese_spacing [20154, 32, 35774, 32, 22909] = [20154, 35774, 32, 22909]"
  by (simp add: match_cjk_gap_def is_cjk_def is_space_def)

section \<open>The page-text formatter\<close>

lemma last_dropWhile: "dropWhile P xs \<noteq> [] \<Longrightarrow> last (dropWhile P xs) = last xs"
  by (induction xs) (auto split: if_splits)

lemma strip_trimmed: "strip s \<noteq> [] \<Longrightarrow> trimmed (strip s)"
proof -
  assume ne: "strip s \<noteq> []"
  define t where "t = dropWhile is_space s"
  define u where "u = dropWhile is_space (rev t)"
  have su: "strip s = rev u" by (simp add: strip_def t_def u_def)
  with ne have u: "u \<noteq> []" by simp
  then have rt: "rev t \<noteq> []" by (auto simp: u_def)
  have "\<not> is_space (hd u)" using u unfolding u_def by (rule hd_dropWhile)
  then have l: "\<not> is_space (last (rev u))" using u by (simp add: last_rev)
  have "last u = last (rev t)" using u unfolding u_def by (rule last_dropWhile)
  also have "\<dots> = hd t" using rt by (simp add: last_rev)
  finally have "hd (rev u) = hd t" using u by (simp add: hd_rev)
  moreover have "\<not> is_space (hd t)"
  proof -
    from rt have "t \<noteq> []" by simp
    then show ?thesis unfolding t_def by (rule hd_dropWhile)
  qed
  ultimately show ?thesis using l u by (simp add: trimmed_def su)
qed

lemma match_cjk_gap_SomeD:
  "match_cjk_gap (c # cs) = Some (g1, g2, r) \<Longrightarrow> g1 = c \<and> dropWhile is_space cs = g2 # r"
  by (auto simp: match_cjk_gap_def split: list.splits if_splits)

lemma clean_Nil_iff: "clean_chinese_spacing s = [] \<longleftrightarrow> s = []"
  by (cases s) (auto split: option.splits)

lemma hd_clean: "hd (clean_chinese_spacing s) = hd s"
  by (cases s) (auto split: option.splits dest: match_cjk_gap_SomeD)

lemma last_clean: "last (clean_chinese_spacing s) = last s"
proof (induction s rule: clean_chinese_spacing.induct)
  case 1
  show ?case by simp
next
  case (2 c cs)
  show ?case
  proof (cases "match_cjk_gap (c # cs)")
    case None
    from 2(1)[OF None] None show ?thesis by (simp add: clean_Nil_iff)
  next
    case (Some m)
    obtain g1 g2 r where m: "m = (g1, g2, r)" by (cases m)
    from Some m have d: "dropWhile is_space cs = g2 # r" and g: "g1 = c"
      by (auto dest: match_cjk_gap_SomeD)
    have ih: "last (clean_chinese_spacing r) = last r"
      by (rule 2(2)[OF Some, of g1 "(g2, r)" g2 r]) (simp_all add: m)
    have "last (dropWhile is_space cs) = last cs" using d by (intro last_dropWhile) simp
    then have "last cs = last (g2 # r)" using d by simp
    moreover have "cs \<noteq> []" using d by auto
    ultimately show ?thesis using Some m ih by (simp add: clean_Nil_iff)
  qed
qed

lemma clean_trimmed: "trimmed s \<Longrightarrow> trimmed (clean_chinese_spacing s)"
  by (simp add: trimmed_def clean_Nil_iff hd_clean last_clean)

lemma collapse_Nil_iff: "collapse_spaces s = [] \<longleftrightarrow> s = []"
  by (cases s) auto

lemma hd_collapse: "s \<noteq> [] \<Longrightarrow> \<not> is_space (hd s) \<Longrightarrow> hd (collapse_spaces s) = hd s"
  by (cases s) auto

lemma last_collapse:
  "s \<noteq> [] \<Longrightarrow> \<not> is_space (last s) \<Longrightarrow> last (collapse_spaces s) = last s"
proof (induction s rule: collapse_spaces.induct)
  case 1
  then show ?case by simp
next
  case (2 c cs)
  show ?case
  proof (cases "is_space c")
    case True
    with "2.prems"(2) have cs: "cs \<noteq> []" by auto
    have dne: "dropWhile is_space cs \<noteq> []"
    proof
      assume "dropWhile is_space cs = []"
      then have "\<forall>x\<in>set cs. is_space x" by (simp add: dropWhile_eq_Nil_conv)
      with cs have "is_space (last cs)" by simp
      with "2.prems"(2) cs show False by simp
    qed
    then have ld: "last (dropWhile is_space cs) = last cs" by (rule last_dropWhile)
    with "2.prems"(2) cs have "\<not> is_space (last (dropWhile is_space cs))" by simp
    with "2.IH"(1)[OF True dne]
    have "last (collapse_spaces (dropWhile is_space cs)) = last (dropWhile is_space cs)" .
    with True dne ld cs show ?thesis
      by (simp add: collapse_Nil_iff del: dropWhile_eq_Nil_conv)
  next
    case False
    show ?thesis
    proof (cases "cs = []")
      case True
      with False show ?thesis by simp
    next
      case ne: False
      with "2.prems"(2) have "\<not> is_space (last cs)" by simp
      with "2.IH"(2) False ne have "last (collapse_spaces cs) = last cs" by simp
      with False ne show ?thesis by (simp add: collapse_Nil_iff)
    qed
  qed
qed

lemma collapse_only_blank: "list_all (\<lambda>c. is_space c \<longrightarrow> c = 32) (collapse_spaces s)"
  by (induction s rule: collapse_spaces.induct) auto

lemma hd_collapse_dropWhile:
  "collapse_spaces (dropWhile is_space cs) = d # ds \<Longrightarrow> \<not> is_space d"
proof -
  assume a: "collapse_spaces (dropWhile is_space cs) = d # ds"
  then have ne: "dropWhile is_space cs \<noteq> []"
    by (metis collapse_Nil_iff list.distinct(1))
  then have h: "\<not> is_space (hd (dropWhile is_space cs))" by (rule hd_dropWhile)
  with ne have "hd (collapse_spaces (dropWhile is_space cs)) = hd (dropWhile is_space cs)"
    by (rule hd_collapse)
  with a h show ?thesis by simp
qed

lemma collapse_no_space_run: "no_space_run (collapse_spaces s)"
proof (induction s rule: collapse_spaces.induct)
  case 1
  show ?case by simp
next
  case (2 c cs)
  show ?case
  proof (cases "is_space c")
    case True
    with "2.IH"(1) have ih: "no_space_run (collapse_spaces (dropWhile is_space cs))" by simp
    show ?thesis
    proof (cases "collapse_spaces (dropWhile is_space cs)")
      case Nil
      with True show ?thesis by simp
    next
      case (Cons d ds)
      with ih True hd_collapse_dropWhile[OF Cons] show ?thesis by simp
    qed
  next
    case False
    with "2.IH"(2) have ih: "no_space_run (collapse_spaces cs)" by simp
    with False show ?thesis by (cases "collapse_spaces cs") auto
  qed
qed

lemma collapse_tidy: "trimmed s \<Longrightarrow> tidy_paragraph (collapse_spaces s)"
  by (simp add: trimmed_def tidy_paragraph_def collapse_Nil_iff hd_collapse last_collapse
      collapse_only_blank collapse_no_space_run)

lemma no_space_run_append:
  "xs \<noteq> [] \<Longrightarrow> ys \<noteq> [] \<Longrightarrow>
   no_space_run (xs @ ys) \<longleftrightarrow>
     no_space_run xs \<and> no_space_run ys \<and> \<not> (is_space (last xs) \<and> is_space (hd ys))"
proof (induction xs)
  case Nil
  then show ?case by simp
next
  case (Cons a xs)
  show ?case
  proof (cases "xs = []")
    case True
    with Cons.prems show ?thesis by (cases ys) auto
  next
    case False
    with Cons show ?thesis by (cases xs) auto
  qed
qed

lemma tidy_join_blank:
  assumes "tidy_paragraph p" "tidy_paragraph q"
  shows "tidy_paragraph (p @ [32] @ q)"
proof -
  from assms have p: "p \<noteq> []" and q: "q \<noteq> []" by (auto simp: tidy_paragraph_def)
  have "no_space_run ([32] @ q)"
    using assms(2) q by (subst no_space_run_append) (auto simp: tidy_paragraph_def)
  then have "no_space_run (p @ ([32] @ q))"
    using assms(1) p by (subst no_space_run_append) (auto simp: tidy_paragraph_def)
  with assms p q show ?thesis by (auto simp: tidy_paragraph_def)
qed

lemma merge_lines_tidy:
  "list_all trimmed lns \<Longrightarrow> list_all tidy_paragraph merged \<Longrightarrow> buf = [] \<or> tidy_paragraph buf \<Longrightarrow>
   merge_lines lns merged buf = (m, b) \<Longrightarrow> list_all tidy_paragraph m \<and> (b = [] \<or> tidy_paragraph b)"
proof (induction lns arbitrary: merged buf)
  case Nil
  then show ?case by simp
next
  case (Cons ln lns)
  let ?ln = "collapse_spaces (clean_chinese_spacing ln)"
  from Cons.prems(1) have t: "tidy_paragraph ?ln" and rest: "list_all trimmed lns"
    by (simp_all add: collapse_tidy clean_trimmed)
  show ?case
  proof (cases "buf = []")
    case True
    with Cons.prems have "merge_lines lns merged ?ln = (m, b)" by (simp add: Let_def)
    from Cons.IH[OF rest Cons.prems(2) _ this] t show ?thesis by simp
  next
    case False
    with Cons.prems(3) have tb: "tidy_paragraph buf" by simp
    show ?thesis
    proof (cases "endswith_any buf end_punct")
      case True
      with False Cons.prems have "merge_lines lns (merged @ [buf]) ?ln = (m, b)"
        by (simp add: Let_def)
      moreover have "list_all tidy_paragraph (merged @ [buf])" using Cons.prems(2) tb by simp
      ultimately show ?thesis using Cons.IH[OF rest] t by blast
    next
      case nop: False
      with False Cons.prems have "merge_lines lns merged (buf @ [32] @ ?ln) = (m, b)"
        by (simp add: Let_def)
      moreover have "tidy_paragraph (buf @ [32] @ ?ln)" using tb t by (rule tidy_join_blank)
      ultimately show ?thesis using Cons.IH[OF rest Cons.prems(2)] by blast
    qed
  qed
qed

lemma page_lines_trimmed: "list_all trimmed (page_lines text)"
  by (auto simp: page_lines_def list_all_iff intro: strip_trimmed)

lemma page_paragraphs_tidy: "list_all tidy_paragraph (page_paragraphs text)"
proof -
  obtain m b where mb: "merge_lines (page_lines text) [] [] = (m, b)" by (cases "merge_lines (page_lines text) [] []")
  from merge_lines_tidy[OF page_lines_trimmed _ _ mb]
  have "list_all tidy_paragraph m \<and> (b = [] \<or> tidy_paragraph b)" by simp
  with mb show ?thesis by (auto simp: page_paragraphs_def)
qed

lemma page_paragraphs_blank: "page_paragraphs [] = []"
  by (simp add: page_paragraphs_def page_lines_def splitlines_def)

text \<open>
  C9. For every input the formatter returns the paragraphs of the stripped text joined by
  two line feeds (the empty string when there is none), and every paragraph is tidy: not
  empty, no space at either end, no two consecutive spaces.
\<close>

theorem format_page_text_paragraphs:
  "format_page_text text = join [10, 10] (page_paragraphs (strip text)) \<and>
   list_all tidy_paragraph (page_paragraphs (strip text))"
  by (simp add: format_page_text_def Let_def page_paragraphs_blank page_paragraphs_tidy)

theorem format_page_text_paragraphs_witness:
  "format_page_text (asc '' a  b!'' @ [10, 32, 10] @ asc ''c d '')
     = join [10, 10] [asc ''a b!'', asc ''c d''] \<and>
   list_all tidy_paragraph [asc ''a b!'', asc ''c d'']"
  using format_page_text_paragraphs [of "asc '' a  b!'' @ [10, 32, 10] @ asc ''c d ''"]
  by (simp add: asc_def strip_def splitlines_def is_space_def is_linebreak_def is_cjk_def
      match_cjk_gap_def page_lines_def page_paragraphs_def endswith_any_def endswith_def
      end_punct_def)

section \<open>The parallel page processor: order and progress\<close>

lemma callbacks_page_events:
  "callbacks (page_events True tot k order) = map (\<lambda>j. (j, tot)) [Suc k..<Suc k + length order]"
proof (induction order arbitrary: k)
  case Nil
  show ?case by simp
next
  case (Cons i order)
  have "[Suc k..<Suc k + length (i # order)] = Suc k # [Suc (Suc k)..<Suc (Suc k) + length order]"
    by (subst upt_conv_Cons) simp_all
  with Cons[of "Suc k"] show ?case by simp
qed

lemma completion_order_set: "set (completion_order n sched) = {..<n}"
  by (auto simp: completion_order_def)

lemma completion_order_distinct: "distinct (completion_order n sched)"
  by (auto simp: completion_order_def)

lemma worker_ok:
  "recognize E ocr_engine lang img = Inr t \<Longrightarrow>
   worker E lang ocr_engine cb tot st (idx, img) =
     (st\<lparr>processed := (if cb then processed st + 1 else processed st),
         log := log st @ (if cb then [PageWork idx, Progress (processed st + 1) tot] else [PageWork idx])\<rparr>,
      Inr (idx, t))"
  by (simp add: worker_def Let_def)

lemma run_workers_futures:
  assumes ok: "\<forall>img\<in>set images. \<exists>t. recognize E ocr_engine lang img = Inr t"
  shows "\<forall>i\<in>set order. i < length images \<Longrightarrow>
    futures (run_workers E lang ocr_engine cb images order st) i =
      (if i \<in> set order then Some (Inr (i, projr (recognize E ocr_engine lang (images ! i))))
       else futures st i)"
proof (induction order arbitrary: st)
  case Nil
  show ?case by simp
next
  case (Cons j order)
  then have j: "j < length images" by simp
  with ok obtain t where t: "recognize E ocr_engine lang (images ! j) = Inr t"
    by (meson nth_mem)
  from Cons.prems have rest: "\<forall>i\<in>set order. i < length images" by simp
  show ?case
    using j t by (simp add: worker_ok Cons.IH[OF rest])
qed

lemma run_workers_log:
  assumes ok: "\<forall>img\<in>set images. \<exists>t. recognize E ocr_engine lang img = Inr t"
  shows "\<forall>i\<in>set order. i < length images \<Longrightarrow>
    log (run_workers E lang ocr_engine cb images order st) =
      log st @ page_events cb (length images) (processed st) order"
proof (induction order arbitrary: st)
  case Nil
  show ?case by simp
next
  case (Cons j order)
  then have j: "j < length images" by simp
  with ok obtain t where t: "recognize E ocr_engine lang (images ! j) = Inr t"
    by (meson nth_mem)
  from Cons.prems have rest: "\<forall>i\<in>set order. i < length images" by simp
  show ?case
    using j t by (simp add: worker_ok Cons.IH[OF rest])
qed

lemma collect_append:
  "collect fs (ps @ qs) r =
     (case collect fs ps r of Inl e \<Rightarrow> Inl e | Inr r' \<Rightarrow> collect fs qs r')"
  by (induction ps arbitrary: r) (auto split: option.splits sum.splits)

lemma collect_upto:
  assumes fs: "\<forall>p<N. fs p = Some (Inr (p, t p))"
  shows "n \<le> N \<Longrightarrow>
    collect fs [0..<n] (replicate N None) = Inr (map (\<lambda>p. Some (t p)) [0..<n] @ replicate (N - n) None)"
proof (induction n)
  case 0
  show ?case by simp
next
  case (Suc n)
  then have n: "n < N" and ih: "collect fs [0..<n] (replicate N None) =
      Inr (map (\<lambda>p. Some (t p)) [0..<n] @ replicate (N - n) None)" by simp_all
  from n have rep: "replicate (N - n) None = (None :: pystr option) # replicate (N - Suc n) None"
    by (cases "N - n") (simp_all add: Suc_diff_Suc)
  have "(map (\<lambda>p. Some (t p)) [0..<n] @ replicate (N - n) None)[n := Some (t n)] =
        map (\<lambda>p. Some (t p)) [0..<Suc n] @ replicate (N - Suc n) None"
    by (simp add: rep list_update_append)
  with fs n ih show ?case by (simp add: collect_append)
qed

lemma or_empty_id: "or_empty s = s"
  by (simp add: or_empty_def)

lemma ocr_pages_in_parallel_run:
  assumes ok: "\<forall>img\<in>set images. \<exists>t. recognize E ocr_engine lang img = Inr t"
      and w: "valid_workers max_workers"
  shows "ocr_pages_in_parallel E images lang ocr_engine max_workers cb sched =
     Inr (map (\<lambda>img. projr (recognize E ocr_engine lang img)) images,
          (if cb then [Progress 0 (length images)] else []) @
          page_events cb (length images) 0 (completion_order (length images) sched))"
proof -
  let ?N = "length images"
  let ?order = "completion_order ?N sched"
  let ?init = "\<lparr>processed = 0, log = (if cb then [Progress 0 ?N] else []), futures = Map.empty\<rparr>"
  let ?fin = "run_workers E lang ocr_engine cb images ?order ?init"
  let ?t = "\<lambda>p. projr (recognize E ocr_engine lang (images ! p))"
  have inr: "\<forall>i\<in>set ?order. i < ?N" by (simp add: completion_order_set)
  have f: "\<forall>p<?N. futures ?fin p = Some (Inr (p, ?t p))"
    by (simp add: run_workers_futures[OF ok inr] completion_order_set)
  have c: "collect (futures ?fin) [0..<?N] (replicate ?N None) = Inr (map (\<lambda>p. Some (?t p)) [0..<?N])"
    using collect_upto[OF f, of ?N] by simp
  have l: "log ?fin = (if cb then [Progress 0 ?N] else []) @ page_events cb ?N 0 ?order"
    using run_workers_log[OF ok inr, where st = ?init and cb = cb] by simp
  have m: "map ?t [0..<?N] = map (\<lambda>img. projr (recognize E ocr_engine lang img)) images"
    by (rule nth_equalityI) simp_all
  have nw: "\<not> (case max_workers of None \<Rightarrow> False | Some w \<Rightarrow> w \<le> 0)"
    using w by (auto simp: valid_workers_def split: option.splits)
  show ?thesis
    unfolding ocr_pages_in_parallel_def Let_def
    using nw c l m by (simp add: o_def or_empty_id)
qed

lemma page_works_page_events: "page_works (page_events cb tot k order) = order"
  by (induction order arbitrary: k) auto

lemma progress_runI:
  assumes d: "distinct order" and s: "set order = {..<N}"
  shows "progress_run N (Progress 0 N # page_events True N 0 order)"
proof -
  have len: "length order = N"
    using distinct_card[OF d] s by simp
  have m: "mset order = mset [0..<N]"
    using d s by (intro iffD1[OF set_eq_iff_mset_eq_distinct]) (auto simp: atLeast0LessThan)
  let ?cbs = "callbacks (Progress 0 N # page_events True N 0 order)"
  have c: "?cbs = map (\<lambda>j. (j, N)) [0..<Suc N]"
    by (simp add: callbacks_page_events len upt_conv_Cons del: upt_Suc)
  have f: "map fst ?cbs = [0..<Suc N]"
    unfolding c by (simp add: o_def del: upt_Suc)
  have "sorted (map fst ?cbs)" unfolding f by (rule sorted_upt)
  moreover have "list_all (\<lambda>c. snd c = N) ?cbs" unfolding c by (simp add: list_all_iff)
  moreover have "last ?cbs = (N, N)" unfolding c by simp
  moreover have "length ?cbs = Suc N" unfolding c by simp
  ultimately show ?thesis
    using f m by (simp add: progress_run_def Let_def page_works_page_events del: upt_Suc)
qed

lemma extract_pages_texts:
  "texts (extract_pages rt cb af tot i pages st) = texts st @ map (text_layer_page rt af) pages"
  by (induction pages arbitrary: i st) (simp_all add: Let_def)

lemma extract_pages_log:
  "log (extract_pages rt True af tot i pages st) =
     log st @ page_events True tot (processed st) [i..<i + length pages]"
proof (induction pages arbitrary: i st)
  case Nil
  show ?case by simp
next
  case (Cons p pages)
  have "[i..<i + length (p # pages)] = i # [Suc i..<Suc i + length pages]"
    by (subst upt_conv_Cons) simp_all
  then show ?case by (simp add: Let_def Cons.IH)
qed

lemma extract_text_layer_pages_log:
  "log (extract_text_layer_pages E pdf_path rt True af) =
     Progress 0 (length (pdfplumber_pages E pdf_path)) #
       page_events True (length (pdfplumber_pages E pdf_path)) 0 [0..<length (pdfplumber_pages E pdf_path)]"
  by (simp add: extract_text_layer_pages_def Let_def extract_pages_log)

text \<open>
  C1. When the recognition of every page returns and the worker bound is accepted (none,
  or at least 1), the parallel page processor returns exactly one text per image, and
  the text at index \<open>i\<close> is the recognition result of the image at index \<open>i\<close>, for every
  language, every engine name and every order \<open>sched\<close> in which the workers finish.
\<close>

theorem ocr_pages_in_parallel_order:
  assumes "\<forall>img\<in>set images. \<exists>t. recognize E ocr_engine lang img = Inr t"
      and "valid_workers max_workers"
  shows "\<exists>page_texts evs.
           ocr_pages_in_parallel E images lang ocr_engine max_workers cb sched = Inr (page_texts, evs) \<and>
           length page_texts = length images \<and>
           (\<forall>i<length images. recognize E ocr_engine lang (images ! i) = Inr (page_texts ! i))"
proof -
  from assms(1) have "\<forall>i<length images. recognize E ocr_engine lang (images ! i)
      = Inr (projr (recognize E ocr_engine lang (images ! i)))"
    by (metis nth_mem sum.sel(2))
  then show ?thesis
    by (simp add: ocr_pages_in_parallel_run[OF assms])
qed

text \<open>
  C2. With a callback supplied, a run of the parallel processor over \<open>N\<close> pages whose
  recognitions all return, and a text-layer extraction over \<open>N\<close> pages, both produce a
  log that starts with the call \<open>(0, N)\<close>, before the work on any page, and then has one
  call per page: the completed counts are \<open>0, 1, ..., N\<close>, the total is \<open>N\<close> in every
  call and the last call is \<open>(N, N)\<close>, whatever the order in which the workers finish.
\<close>

theorem progress_callback_sequence:
  assumes "\<forall>img\<in>set images. \<exists>t. recognize E ocr_engine lang img = Inr t"
      and "valid_workers max_workers"
  shows "(\<exists>page_texts evs.
            ocr_pages_in_parallel E images lang ocr_engine max_workers True sched = Inr (page_texts, evs) \<and>
            progress_run (length images) evs) \<and>
         progress_run (length (pdfplumber_pages E pdf_path))
           (log (extract_text_layer_pages E pdf_path remove_tokens True auto_format))"
proof -
  have "progress_run (length images)
          (Progress 0 (length images) #
             page_events True (length images) 0 (completion_order (length images) sched))"
    by (rule progress_runI) (simp_all add: completion_order_distinct completion_order_set)
  moreover have "progress_run (length (pdfplumber_pages E pdf_path))
      (log (extract_text_layer_pages E pdf_path remove_tokens True auto_format))"
    unfolding extract_text_layer_pages_log
    by (rule progress_runI) (auto simp: atLeast0LessThan)
  ultimately show ?thesis
    by (simp add: ocr_pages_in_parallel_run[OF assms])
qed

lemmas demo_simps = demo_env_def recognize_def ocr_image_to_text_tesseract_def asc_def strip_def
  is_space_def or_empty_def valid_workers_def

theorem ocr_pages_in_parallel_order_witness:
  "\<exists>page_texts evs.
      ocr_pages_in_parallel demo_env [1, 2] (asc ''eng'') (asc ''tesseract'') (Some 2) True [1]
        = Inr (page_texts, evs) \<and>
      length page_texts = 2 \<and> page_texts ! 0 = asc ''p1.'' \<and> page_texts ! 1 = asc ''p2.''"
  using ocr_pages_in_parallel_order [of "[1, 2]" demo_env "asc ''tesseract''" "asc ''eng''" "Some 2" True "[1]"]
  by (auto simp: demo_simps less_Suc_eq)

theorem progress_callback_sequence_witness:
  "(\<exists>page_texts evs.
      ocr_pages_in_parallel demo_env [1, 2] (asc ''eng'') (asc ''tesseract'') None True [1]
        = Inr (page_texts, evs) \<and> progress_run 2 evs) \<and>
   progress_run 2 (log (extract_text_layer_pages demo_env (asc ''two.pdf'') None True True))"
proof -
  have h1: "\<forall>img\<in>set [1, 2]. \<exists>t. recognize demo_env (asc ''tesseract'') (asc ''eng'') img = Inr t"
    by (simp add: demo_simps)
  have h2: "valid_workers None"
    by (simp add: valid_workers_def)
  have l: "length (pdfplumber_pages demo_env (asc ''two.pdf'')) = 2"
    by (simp add: demo_env_def)
  from progress_callback_sequence [OF h1 h2, of "[1]" "asc ''two.pdf''" None True]
  show ?thesis unfolding l by (simp add: numeral_2_eq_2)
qed

section \<open>The extension check\<close>

lemma endswith_iff: "endswith s suf \<longleftrightarrow> (\<exists>pre. s = pre @ suf)"
proof
  assume "endswith s suf"
  then have "s = take (length s - length suf) s @ suf"
    by (metis append_take_drop_id endswith_def)
  then show "\<exists>pre. s = pre @ suf" ..
next
  assume "\<exists>pre. s = pre @ suf"
  then show "endswith s suf" by (auto simp: endswith_def)
qed

lemma endswith_Nil: "endswith s []"
  by (simp add: endswith_def)

lemma endswith_snoc: "endswith (A @ [a]) (B @ [b]) \<longleftrightarrow> a = b \<and> endswith A B"
proof -
  have "(\<exists>pre. A @ [a] = pre @ B @ [b]) \<longleftrightarrow> a = b \<and> (\<exists>pre. A = pre @ B)"
    by (metis append_assoc append1_eq_conv)
  then show ?thesis by (simp add: endswith_iff)
qed

lemma endswith_Nil_left: "endswith [] (B @ [b]) = False"
  by (simp add: endswith_def)

lemma endswith_lowered:
  "list_all2 lowered cs ps \<Longrightarrow> set pat \<subseteq> {46, 100, 111, 99, 120} \<Longrightarrow>
   endswith (concat ps) pat \<longleftrightarrow> endswith (map ascii_lower cs) pat"
proof (induction pat arbitrary: cs ps rule: rev_induct)
  case Nil
  show ?case by (simp add: endswith_Nil)
next
  case (snoc x pat)
  from snoc.prems(2) have x: "x \<in> {46, 100, 111, 99, 120}" and pat: "set pat \<subseteq> {46, 100, 111, 99, 120}"
    by simp_all
  show ?case
  proof (cases cs rule: rev_cases)
    case Nil
    with snoc.prems(1) show ?thesis by (simp add: endswith_Nil_left)
  next
    case (snoc cs' c)
    with snoc.prems(1) obtain ps' p where ps: "ps = ps' @ [p]" and r: "list_all2 lowered cs' ps'"
      and l: "lowered c p"
      by (auto simp: list_all2_append1 list_all2_Cons1)
    have ih: "endswith (concat ps') pat \<longleftrightarrow> endswith (map ascii_lower cs') pat"
      using snoc.IH[OF r pat] .
    show ?thesis
    proof (cases "c < 128")
      case True
      with l have "p = [ascii_lower c]" by (simp add: lowered_def)
      with ps snoc ih show ?thesis by (simp add: endswith_snoc)
    next
      case False
      with l obtain q z where p: "p = q @ [z]" and z: "z \<notin> {46, 100, 111, 99, 120}"
        by (metis lowered_def append_butlast_last_id)
      from False x have "ascii_lower c \<noteq> x" by (auto simp: ascii_lower_def)
      moreover from z x have "z \<noteq> x" by auto
      moreover have "concat ps = (concat ps' @ q) @ [z]" using ps p by simp
      ultimately show ?thesis using snoc by (simp add: endswith_snoc del: append_assoc)
    qed
  qed
qed

lemma py_lower_lowered:
  "lower_table_ok E \<Longrightarrow> list_all2 lowered s (map (lower_char E s) [0..<length s])"
  by (auto simp: list_all2_conv_all_nth lowered_def lower_char_def Let_def lower_table_ok_def
      ascii_lower_def)

lemma endswith_rev: "endswith s suf \<longleftrightarrow> take (length suf) (rev s) = rev suf"
proof
  assume "endswith s suf"
  then obtain pre where "s = pre @ suf" by (auto simp: endswith_iff)
  then show "take (length suf) (rev s) = rev suf" by simp
next
  assume a: "take (length suf) (rev s) = rev suf"
  have "rev s = take (length suf) (rev s) @ drop (length suf) (rev s)" by simp
  then have "rev s = rev suf @ drop (length suf) (rev s)" using a by simp
  then have "s = rev (drop (length suf) (rev s)) @ suf" by (metis rev_append rev_rev_ident)
  then show "endswith s suf" by (auto simp: endswith_iff)
qed

lemma ascii_lower_eqs:
  "ascii_lower x = 46 \<longleftrightarrow> x = 46"
  "ascii_lower x = 100 \<longleftrightarrow> x = 100 \<or> x = 68"
  "ascii_lower x = 111 \<longleftrightarrow> x = 111 \<or> x = 79"
  "ascii_lower x = 99 \<longleftrightarrow> x = 99 \<or> x = 67"
  "ascii_lower x = 120 \<longleftrightarrow> x = 120 \<or> x = 88"
  by (auto simp: ascii_lower_def)

lemma docx_suffix_rev:
  "take (Suc (Suc (Suc (Suc (Suc 0))))) (map ascii_lower r) = [120, 99, 111, 100, 46] \<longleftrightarrow>
     (case r of
        c5 # c4 # c3 # c2 # c1 # stem \<Rightarrow>
          c1 = 46 \<and> (c2 = 100 \<or> c2 = 68) \<and> (c3 = 111 \<or> c3 = 79) \<and>
          (c4 = 99 \<or> c4 = 67) \<and> (c5 = 120 \<or> c5 = 88)
      | _ \<Rightarrow> False)"
  by (simp add: ascii_lower_eqs split: list.split) blast

lemma has_docx_suffix_fold:
  "has_docx_suffix p \<longleftrightarrow> endswith (map ascii_lower p) (asc ''.docx'')"
proof -
  have "endswith (map ascii_lower p) (asc ''.docx'') \<longleftrightarrow>
        take (Suc (Suc (Suc (Suc (Suc 0))))) (map ascii_lower (rev p)) = [120, 99, 111, 100, 46]"
    by (simp add: endswith_rev asc_def rev_map)
  then show ?thesis
    by (simp only: docx_suffix_rev has_docx_suffix_def)
qed

lemma docx_check:
  "lower_table_ok E \<Longrightarrow> endswith (py_lower E p) (asc ''.docx'') \<longleftrightarrow> has_docx_suffix p"
  unfolding has_docx_suffix_fold py_lower_def
  by (rule endswith_lowered[OF py_lower_lowered]) (simp_all add: asc_def)

section \<open>The line merge and the order of the text-layer transformations\<close>

lemmas eval_simps = asc_def strip_def splitlines_def is_space_def is_linebreak_def is_cjk_def
  match_cjk_gap_def page_lines_def page_paragraphs_def format_page_text_def endswith_any_def
  endswith_def end_punct_def startswith_def

text \<open>
  C3. The line merge closes the paragraph when the buffer ends with a sentence-terminal
  mark. The code is evaluated on the two lines \<open>End.\<close> and \<open>Next\<close>: the half-width period
  is not in \<open>end_punct\<close>, so the second line is joined to the first with a space and the
  page has the single paragraph \<open>End. Next\<close>; with \<open>End!\<close> the paragraph is closed.
\<close>

theorem merge_lines_half_width_period:
  "merge_lines [asc ''End.'', asc ''Next''] [] [] = ([], asc ''End. Next'') \<and>
   format_page_text (asc ''End.'' @ [10] @ asc ''Next'') = asc ''End. Next'' \<and>
   format_page_text (asc ''End!'' @ [10] @ asc ''Next'') = asc ''End!'' @ [10, 10] @ asc ''Next''"
  by (simp add: eval_simps)

text \<open>
  C6, as stated: token removal comes before the spacing repair, so a token with a space
  between two ideographs is removed from the raw text. On the raw text U+9875, space,
  U+7709, \<open>abc\<close> with that token configured, the code repairs the spacing first and
  then does not find the token: the page text keeps both ideographs, where the stated
  order gives \<open>abc\<close>.
\<close>

theorem token_removal_after_repair:
  "text_layer_page (Some [[39029, 32, 30473]]) False (Some ([39029, 32, 30473] @ asc ''abc''))
     = [39029, 30473] @ asc ''abc'' \<and>
   token_removal_first [[39029, 32, 30473]] False ([39029, 32, 30473] @ asc ''abc'') = asc ''abc'' \<and>
   text_layer_page (Some [[39029, 32, 30473]]) False (Some ([39029, 32, 30473] @ asc ''abc''))
     \<noteq> token_removal_first [[39029, 32, 30473]] False ([39029, 32, 30473] @ asc ''abc'')"
  by (simp add: eval_simps text_layer_page_def token_removal_first_def py_replace.simps)

text \<open>
  C6, amended. In text-layer mode the spacing repair is applied to the raw text of the
  page first; the literal occurrences of each configured token are then removed from
  the repaired text, token after token in the order of the list; then the text is
  formatted (when formatting is on) and stripped. A page without text stays empty.
\<close>

theorem text_layer_page_order:
  "text_layer_page (Some tokens) auto_format (Some content) =
     (if content = [] then []
      else strip ((if auto_format then format_page_text else id)
                    (foldl (\<lambda>c token. py_replace token [] c) (clean_chinese_spacing content) tokens)))"
  by (cases tokens) (simp_all add: text_layer_page_def Let_def)

theorem text_layer_page_order_witness:
  "text_layer_page (Some [asc ''H1'']) True (Some (asc ''H1 x'' @ [10] @ asc ''y H1'')) = asc ''x y''"
  using text_layer_page_order [of "[asc ''H1'']" True "asc ''H1 x'' @ [10] @ asc ''y H1''"]
  by (simp add: eval_simps py_replace.simps)

section \<open>The empty source\<close>

text \<open>
  C8. A source that yields zero pages makes every OCR-driven conversion raise and write
  nothing. The code is evaluated on a file without pages: \<open>convert_pdf_to_docx\<close> raises
  the error of the empty source, while \<open>convert_pdf_to_docx_mac_vision\<close>, which has no
  such test, reports \<open>(0, 0)\<close>, saves a document without blocks and returns its path.
\<close>

theorem empty_source_mac_vision:
  "convert_pdf_to_docx demo_env (asc ''empty.pdf'') (asc ''out'') (asc ''eng'') 300 None
     (asc ''tesseract'') None True True (asc ''SimSun'') 12 [] = Inl ValueError_no_pages \<and>
   convert_pdf_to_docx_mac_vision demo_env (asc ''empty.pdf'') (asc ''out'') 300 True True
     (asc ''SimSun'') 12 =
     Inr \<lparr>saved_path = asc ''out.docx'',
          saved_doc = \<lparr>default_font = Some (asc ''SimSun'', 12),
                       east_asia_font = Some (asc ''SimSun''), body = []\<rparr>,
          returned_path = asc ''/out.docx'',
          events = [Progress 0 0]\<rparr>"
  by (simp add: convert_pdf_to_docx_def convert_pdf_to_docx_mac_vision_def pdf_to_images_def
      demo_env_def asc_def save_docx_def py_lower_def lower_char_def endswith_def Let_def
      Document_def apply_default_font_def)

section \<open>Pagination and the output path\<close>

lemma paragraphs_page_blocks: "paragraphs (page_blocks ts) = ts"
  by (induction ts rule: page_blocks.induct) auto

lemma page_breaks_page_blocks: "page_breaks (page_blocks ts) = length ts - 1"
  by (induction ts rule: page_blocks.induct) auto

lemma page_blocks_Cons: "ts \<noteq> [] \<Longrightarrow> page_blocks (t # ts) = Paragraph t # PageBreak # page_blocks ts"
  by (cases ts) auto

lemma add_pages_body:
  "idx + length ts = Suc n \<Longrightarrow>
   body (add_pages idx n ts doc) = body doc @ page_blocks ts"
proof (induction ts arbitrary: idx doc)
  case Nil
  show ?case by simp
next
  case (Cons t ts)
  show ?case
  proof (cases "ts = []")
    case True
    with Cons.prems show ?thesis by (simp add: Let_def or_empty_id)
  next
    case False
    with Cons.prems have ne: "idx \<noteq> n" by (cases ts) auto
    from Cons.prems have "Suc idx + length ts = Suc n" by simp
    from Cons.IH[OF this] ne False show ?thesis
      by (simp add: Let_def or_empty_id page_blocks_Cons)
  qed
qed

lemma saved_doc_save_docx: "saved_doc (save_docx E doc p evs) = doc"
  by (simp add: save_docx_def Let_def)

lemma worker_result:
  "snd (worker E lang ocr_engine cb tot st (i, img)) =
     (case recognize E ocr_engine lang img of Inl e \<Rightarrow> Inl e | Inr t \<Rightarrow> Inr (i, t))"
  by (simp add: worker_def Let_def split: sum.split)

lemma worker_futures:
  "futures (fst (worker E lang ocr_engine cb tot st item)) = futures st"
  by (cases item) (simp add: worker_def Let_def split: sum.split)

lemma run_workers_futures_any:
  "\<forall>i\<in>set order. i < length images \<Longrightarrow> i \<in> set order \<Longrightarrow>
    futures (run_workers E lang ocr_engine cb images order st) i =
      Some (case recognize E ocr_engine lang (images ! i) of Inl e \<Rightarrow> Inl e | Inr t \<Rightarrow> Inr (i, t))"
proof -
  have gen: "\<forall>j\<in>set order. j < length images \<Longrightarrow>
    futures (run_workers E lang ocr_engine cb images order st) i =
      (if i \<in> set order
       then Some (case recognize E ocr_engine lang (images ! i) of Inl e \<Rightarrow> Inl e | Inr t \<Rightarrow> Inr (i, t))
       else futures st i)" for st
  proof (induction order arbitrary: st)
    case Nil
    show ?case by simp
  next
    case (Cons j order)
    then have j: "j < length images" and rest: "\<forall>k\<in>set order. k < length images" by simp_all
    obtain st' r where w: "worker E lang ocr_engine cb (length images) st (j, images ! j) = (st', r)"
      by (cases "worker E lang ocr_engine cb (length images) st (j, images ! j)")
    then have r: "r = (case recognize E ocr_engine lang (images ! j) of Inl e \<Rightarrow> Inl e | Inr t \<Rightarrow> Inr (j, t))"
      using worker_result[of E lang ocr_engine cb "length images" st j "images ! j"] by simp
    from w have f: "futures st' = futures st"
      using worker_futures[of E lang ocr_engine cb "length images" st "(j, images ! j)"] by simp
    show ?case using j w r f by (auto simp: Cons.IH[OF rest] split: sum.splits)
  qed
  assume "\<forall>i\<in>set order. i < length images" "i \<in> set order"
  then show ?thesis using gen by simp
qed

lemma collect_Inr:
  "collect fs ps r = Inr rs \<Longrightarrow> p \<in> set ps \<Longrightarrow> \<exists>idx t. fs p = Some (Inr (idx, t))"
  by (induction ps arbitrary: r) (auto split: option.splits sum.splits)

lemma ocr_pages_in_parallel_Inr:
  assumes "ocr_pages_in_parallel E images lang ocr_engine max_workers cb sched = Inr (page_texts, evs)"
  shows "page_texts = map (\<lambda>img. projr (recognize E ocr_engine lang img)) images \<and>
         (\<forall>img\<in>set images. \<exists>t. recognize E ocr_engine lang img = Inr t)"
proof -
  let ?N = "length images"
  let ?order = "completion_order ?N sched"
  let ?init = "\<lparr>processed = 0, log = (if cb then [Progress 0 ?N] else []), futures = Map.empty\<rparr>"
  let ?fin = "run_workers E lang ocr_engine cb images ?order ?init"
  from assms have w: "valid_workers max_workers"
    by (auto simp: ocr_pages_in_parallel_def Let_def valid_workers_def split: if_splits option.splits)
  from assms obtain rs where c: "collect (futures ?fin) [0..<?N] (replicate ?N None) = Inr rs"
    by (auto simp: ocr_pages_in_parallel_def Let_def split: if_splits sum.splits)
  have ok: "\<forall>img\<in>set images. \<exists>t. recognize E ocr_engine lang img = Inr t"
  proof
    fix img assume "img \<in> set images"
    then obtain i where i: "i < ?N" and img: "img = images ! i" by (auto simp: in_set_conv_nth)
    have inr: "\<forall>k\<in>set ?order. k < ?N" by (simp add: completion_order_set)
    from i have mem: "i \<in> set ?order" by (simp add: completion_order_set)
    from collect_Inr[OF c, of i] i obtain idx t where "futures ?fin i = Some (Inr (idx, t))" by auto
    with run_workers_futures_any[OF inr mem, of E lang ocr_engine cb ?init]
    show "\<exists>t. recognize E ocr_engine lang img = Inr t"
      by (auto simp: img split: sum.splits)
  qed
  from ocr_pages_in_parallel_run[OF ok w, of cb sched] assms ok show ?thesis by simp
qed

lemma mac_pages_Inr:
  "mac_pages ocr cb tot i pages st = Inr st' \<Longrightarrow>
   \<exists>ts. texts st' = texts st @ ts \<and>
        list_all2 (\<lambda>page text. \<exists>items. ocr page = Inr items \<and>
                     text = mac_page_text items) pages ts"
proof (induction pages arbitrary: i st)
  case Nil
  then show ?case by simp
next
  case (Cons page pages)
  from Cons.prems obtain items where it: "ocr page = Inr items"
    by (auto split: sum.splits)
  let ?pt = "mac_page_text items"
  let ?st3 = "(if cb then st\<lparr>log := log st @ [PageWork i], texts := texts st @ [?pt],
                   processed := Suc (processed st),
                   log := (log st @ [PageWork i]) @ [Progress (Suc (processed st)) tot]\<rparr>
              else st\<lparr>log := log st @ [PageWork i], texts := texts st @ [?pt],
                   processed := Suc (processed st)\<rparr>)"
  from Cons.prems it have run: "mac_pages ocr cb tot (i + 1) pages ?st3 = Inr st'"
    by (simp add: Let_def split: if_splits)
  have t3: "texts ?st3 = texts st @ [?pt]" by simp
  from Cons.IH[OF run] obtain ts where
    ts: "texts st' = (texts st @ [?pt]) @ ts"
    and ih: "list_all2 (\<lambda>page text. \<exists>items. ocr page = Inr items \<and>
                text = mac_page_text items) pages ts"
    unfolding t3 by blast
  from ts have "texts st' = texts st @ (?pt # ts)" by simp
  moreover from it ih have "list_all2 (\<lambda>page text. \<exists>items. ocr page = Inr items \<and>
                text = mac_page_text items) (page # pages) (?pt # ts)"
    by simp
  ultimately show ?case by blast
qed

lemma has_docx_suffix_appended: "has_docx_suffix (p @ asc ''.docx'')"
  by (simp add: has_docx_suffix_def asc_def)

lemma save_docx_saved_as: "lower_table_ok E \<Longrightarrow> saved_as E p (save_docx E doc p evs)"
  by (simp add: saved_as_def save_docx_def Let_def docx_check has_docx_suffix_appended)

lemma convert_pdf_to_docx_Inr:
  assumes "convert_pdf_to_docx E pdf_path output_path lang dpi poppler_path ocr_engine max_workers
             cb auto_format font_name font_size_pt sched = Inr r"
  shows "\<exists>ocr_texts evs.
           ocr_pages_in_parallel E (pdf_to_images E pdf_path dpi poppler_path) lang ocr_engine
             max_workers cb sched = Inr (ocr_texts, evs) \<and>
           r = save_docx E
                 (add_pages 1 (length ocr_texts)
                    (if auto_format then map format_page_text ocr_texts else ocr_texts)
                    (apply_default_font Document font_name font_size_pt))
                 output_path evs"
  using assms
  by (auto simp: convert_pdf_to_docx_def Let_def split: if_splits sum.splits prod.splits)

lemma extract_pdf_text_to_docx_Inr:
  assumes "extract_pdf_text_to_docx E pdf_path output_path remove_tokens cb auto_format
             font_name font_size_pt = Inr r"
  shows "r = save_docx E
               (add_pages 1 (length (pdfplumber_pages E pdf_path))
                  (map (text_layer_page remove_tokens auto_format) (pdfplumber_pages E pdf_path))
                  (apply_default_font Document font_name font_size_pt))
               output_path
               (log (extract_text_layer_pages E pdf_path remove_tokens cb auto_format))"
  using assms
  by (auto simp: extract_pdf_text_to_docx_def Let_def extract_text_layer_pages_def
      extract_pages_texts split: if_splits)

lemma convert_pdf_to_docx_mac_vision_Inr:
  assumes "convert_pdf_to_docx_mac_vision E pdf_path output_path dpi cb auto_format
             font_name font_size_pt = Inr r"
  shows "\<exists>fitz_open ocr st.
           fitz E = Some fitz_open \<and> ocrmac E = Some ocr \<and>
           mac_pages ocr cb (length (fitz_open pdf_path dpi)) 0 (fitz_open pdf_path dpi)
             \<lparr>processed = 0,
              log = (if cb then [Progress 0 (length (fitz_open pdf_path dpi))] else []),
              texts = []\<rparr> = Inr st \<and>
           r = save_docx E
                 (add_pages 1 (length (texts st))
                    (if auto_format then map format_page_text (texts st) else texts st)
                    (apply_default_font Document font_name font_size_pt))
                 output_path (log st)"
  using assms
  by (auto simp: convert_pdf_to_docx_mac_vision_def Let_def
      split: if_splits sum.splits option.splits)

lemma add_pages_paginated_len:
  "n = length ts \<Longrightarrow>
   paginated ts (add_pages 1 n ts (apply_default_font Document font_name font_size_pt))"
  by (simp add: paginated_def add_pages_body apply_default_font_def Document_def
      paragraphs_page_blocks page_breaks_page_blocks)

lemma pagination_ocr:
  assumes a: "convert_pdf_to_docx E pdf_path output_path lang dpi poppler_path ocr_engine
      max_workers cb auto_format font_name font_size_pt sched = Inr r1"
  shows "\<exists>page_texts.
         paginated page_texts (saved_doc r1) \<and>
         list_all2 (\<lambda>img text. \<exists>t. recognize E ocr_engine lang img = Inr t \<and>
                       text = (if auto_format then format_page_text t else t))
           (pdf_to_images E pdf_path dpi poppler_path) page_texts"
proof -
  let ?images = "pdf_to_images E pdf_path dpi poppler_path"
  from convert_pdf_to_docx_Inr[OF a] obtain ocr_texts evs where
    o: "ocr_pages_in_parallel E ?images lang ocr_engine max_workers cb sched = Inr (ocr_texts, evs)"
    and r: "r1 = save_docx E
                 (add_pages 1 (length ocr_texts)
                    (if auto_format then map format_page_text ocr_texts else ocr_texts)
                    (apply_default_font Document font_name font_size_pt))
                 output_path evs" by blast
  let ?pts = "if auto_format then map format_page_text ocr_texts else ocr_texts"
  from ocr_pages_in_parallel_Inr[OF o] have
    t: "ocr_texts = map (\<lambda>img. projr (recognize E ocr_engine lang img)) ?images"
    and ok: "\<forall>img\<in>set ?images. \<exists>t. recognize E ocr_engine lang img = Inr t" by simp_all
  have "paginated ?pts (saved_doc r1)"
    unfolding r saved_doc_save_docx by (rule add_pages_paginated_len) simp
  moreover have "list_all2 (\<lambda>img text. \<exists>t. recognize E ocr_engine lang img = Inr t \<and>
                       text = (if auto_format then format_page_text t else t)) ?images ?pts"
  proof -
    have p: "recognize E ocr_engine lang img = Inr (projr (recognize E ocr_engine lang img))"
      if "img \<in> set ?images" for img
      using ok that by (metis sum.sel(2))
    have eq: "?pts = map (\<lambda>img. if auto_format
                         then format_page_text (projr (recognize E ocr_engine lang img))
                         else projr (recognize E ocr_engine lang img)) ?images"
      unfolding t by (cases auto_format) simp_all
    show ?thesis
      unfolding eq list_all2_map2 list_all2_same using p by blast
  qed
  ultimately show ?thesis by blast
qed

lemma pagination_text:
  assumes a: "extract_pdf_text_to_docx E pdf_path output_path remove_tokens cb auto_format
      font_name font_size_pt = Inr r2"
  shows "paginated (map (text_layer_page remove_tokens auto_format) (pdfplumber_pages E pdf_path))
        (saved_doc r2)"
proof -
  show ?thesis
    unfolding extract_pdf_text_to_docx_Inr[OF a] saved_doc_save_docx
    by (rule add_pages_paginated_len) simp
qed

lemma list_all2_map_result:
  "list_all2 (\<lambda>x y. \<exists>z. r x = Inr z \<and> y = g z) xs ys \<Longrightarrow>
   list_all2 (\<lambda>x y. \<exists>z. r x = Inr z \<and> y = f (g z)) xs (map f ys)"
  by (induction rule: list_all2_induct) auto

lemma pagination_mac:
  assumes a: "convert_pdf_to_docx_mac_vision E pdf_path output_path dpi cb auto_format
      font_name font_size_pt = Inr r3"
  shows "\<exists>fitz_open ocr page_texts.
         fitz E = Some fitz_open \<and> ocrmac E = Some ocr \<and>
         paginated page_texts (saved_doc r3) \<and>
         list_all2 (\<lambda>page text. \<exists>items. ocr page = Inr items \<and>
                       text = (if auto_format then format_page_text (mac_page_text items)
                               else mac_page_text items))
           (fitz_open pdf_path dpi) page_texts"
proof -
  from convert_pdf_to_docx_mac_vision_Inr[OF a] obtain fitz_open ocr st where
    f: "fitz E = Some fitz_open" and oc: "ocrmac E = Some ocr"
    and m: "mac_pages ocr cb (length (fitz_open pdf_path dpi)) 0 (fitz_open pdf_path dpi)
             \<lparr>processed = 0,
              log = (if cb then [Progress 0 (length (fitz_open pdf_path dpi))] else []),
              texts = []\<rparr> = Inr st"
    and r: "r3 = save_docx E
                 (add_pages 1 (length (texts st))
                    (if auto_format then map format_page_text (texts st) else texts st)
                    (apply_default_font Document font_name font_size_pt))
                 output_path (log st)" by blast
  let ?pts = "if auto_format then map format_page_text (texts st) else texts st"
  from mac_pages_Inr[OF m] have
    l: "list_all2 (\<lambda>page text. \<exists>items. ocr page = Inr items \<and> text = mac_page_text items)
          (fitz_open pdf_path dpi) (texts st)" by simp
  have p: "paginated ?pts (saved_doc r3)"
    unfolding r saved_doc_save_docx by (rule add_pages_paginated_len) simp
  have q: "list_all2 (\<lambda>page text. \<exists>items. ocr page = Inr items \<and>
                       text = (if auto_format then format_page_text (mac_page_text items)
                               else mac_page_text items))
           (fitz_open pdf_path dpi) ?pts"
  proof (cases auto_format)
    case True
    from list_all2_map_result[OF l, of format_page_text] True show ?thesis by simp
  next
    case False
    with l show ?thesis by simp
  qed
  from f oc p q show ?thesis by blast
qed

text \<open>
  C7. Every conversion that succeeds leaves a paginated document, in each of the three
  modes and with formatting on or off: with \<open>N\<close> pages it has exactly \<open>N\<close> paragraphs,
  the paragraph of page \<open>i\<close> being the (formatted) text of page \<open>i\<close>, empty for a page
  without text, and a page break after every page but the last, \<open>N - 1\<close> in all (with
  no page at all, which the text-layer and mac-vision modes accept, the document has no
  block).
\<close>

theorem pagination:
  "(convert_pdf_to_docx E pdf_path output_path lang dpi poppler_path ocr_engine max_workers
      cb auto_format font_name font_size_pt sched = Inr r1 \<longrightarrow>
      (\<exists>page_texts.
         paginated page_texts (saved_doc r1) \<and>
         list_all2 (\<lambda>img text. \<exists>t. recognize E ocr_engine lang img = Inr t \<and>
                       text = (if auto_format then format_page_text t else t))
           (pdf_to_images E pdf_path dpi poppler_path) page_texts)) \<and>
   (extract_pdf_text_to_docx E pdf_path output_path remove_tokens cb auto_format
      font_name font_size_pt = Inr r2 \<longrightarrow>
      paginated (map (text_layer_page remove_tokens auto_format) (pdfplumber_pages E pdf_path))
        (saved_doc r2)) \<and>
   (convert_pdf_to_docx_mac_vision E pdf_path output_path dpi cb auto_format
      font_name font_size_pt = Inr r3 \<longrightarrow>
      (\<exists>fitz_open ocr page_texts.
         fitz E = Some fitz_open \<and> ocrmac E = Some ocr \<and>
         paginated page_texts (saved_doc r3) \<and>
         list_all2 (\<lambda>page text. \<exists>items. ocr page = Inr items \<and>
                       text = (if auto_format then format_page_text (mac_page_text items)
                               else mac_page_text items))
           (fitz_open pdf_path dpi) page_texts))"
  by (intro conjI impI) (rule pagination_ocr pagination_text pagination_mac, assumption)+

text \<open>
  C10. In every conversion mode the extension check ignores the letter case: a result is
  saved at the requested path unchanged when the path ends with \<open>.docx\<close> in any letter
  case, and at the path followed by the lower-case \<open>.docx\<close>, appended once, otherwise;
  the conversion returns the absolute form of the path it saved. The lower-case table
  of the platform is a parameter, of which \<open>lower_table_ok\<close> is asked.
\<close>

theorem output_path_extension:
  assumes "lower_table_ok E"
  shows
  "(convert_pdf_to_docx E pdf_path output_path lang dpi poppler_path ocr_engine max_workers
      cb auto_format font_name font_size_pt sched = Inr r1 \<longrightarrow> saved_as E output_path r1) \<and>
   (extract_pdf_text_to_docx E pdf_path output_path remove_tokens cb auto_format
      font_name font_size_pt = Inr r2 \<longrightarrow> saved_as E output_path r2) \<and>
   (convert_pdf_to_docx_mac_vision E pdf_path output_path dpi cb auto_format
      font_name font_size_pt = Inr r3 \<longrightarrow> saved_as E output_path r3)"
proof (intro conjI impI)
  assume "convert_pdf_to_docx E pdf_path output_path lang dpi poppler_path ocr_engine max_workers
      cb auto_format font_name font_size_pt sched = Inr r1"
  from convert_pdf_to_docx_Inr[OF this] show "saved_as E output_path r1"
    using save_docx_saved_as[OF assms] by blast
next
  assume "extract_pdf_text_to_docx E pdf_path output_path remove_tokens cb auto_format
      font_name font_size_pt = Inr r2"
  from extract_pdf_text_to_docx_Inr[OF this] show "saved_as E output_path r2"
    using save_docx_saved_as[OF assms] by simp
next
  assume "convert_pdf_to_docx_mac_vision E pdf_path output_path dpi cb auto_format
      font_name font_size_pt = Inr r3"
  from convert_pdf_to_docx_mac_vision_Inr[OF this] show "saved_as E output_path r3"
    using save_docx_saved_as[OF assms] by blast
qed

lemma demo_path_exists: "path_exists demo_env p"
  by (simp add: demo_env_def)

lemma demo_images: "pdf_to_images demo_env (asc ''two.pdf'') dpi poppler_path = [1, 2]"
  by (simp add: pdf_to_images_def demo_env_def)

lemma demo_recognized:
  "\<forall>img\<in>set [1, 2]. \<exists>t. recognize demo_env (asc ''tesseract'') (asc ''eng'') img = Inr t"
  by (simp add: demo_simps)

lemma demo_lower_table_ok: "lower_table_ok demo_env"
  by (simp add: lower_table_ok_def demo_env_def)

lemma demo_convert_runs:
  "\<exists>r. convert_pdf_to_docx demo_env (asc ''two.pdf'') out (asc ''eng'') 300 None
         (asc ''tesseract'') None True False (asc ''SimSun'') 12 [1] = Inr r"
proof -
  have "valid_workers None" by (simp add: valid_workers_def)
  from ocr_pages_in_parallel_run[OF demo_recognized this, of True "[1]"]
  show ?thesis
    by (simp add: convert_pdf_to_docx_def demo_path_exists demo_images Let_def)
qed

lemma demo_extract_runs:
  "\<exists>r. extract_pdf_text_to_docx demo_env (asc ''two.pdf'') out None True False
         (asc ''SimSun'') 12 = Inr r"
  by (simp add: extract_pdf_text_to_docx_def demo_path_exists Let_def)

lemma demo_mac_runs:
  "\<exists>r. convert_pdf_to_docx_mac_vision demo_env (asc ''two.pdf'') out 300 True False
         (asc ''SimSun'') 12 = Inr r"
proof -
  have f: "fitz demo_env = Some (\<lambda>p dpi. if p = asc ''two.pdf'' then [1, 2] else [])"
    and o: "ocrmac demo_env = Some (\<lambda>img. Inr [[112, 48 + img]])"
    by (simp_all add: demo_env_def)
  show ?thesis
    by (simp add: convert_pdf_to_docx_mac_vision_def f o demo_path_exists Let_def)
qed

theorem pagination_witness:
  "(\<exists>r. convert_pdf_to_docx demo_env (asc ''two.pdf'') (asc ''out'') (asc ''eng'') 300 None
          (asc ''tesseract'') None True False (asc ''SimSun'') 12 [1] = Inr r \<and>
        length (paragraphs (body (saved_doc r))) = 2 \<and> page_breaks (body (saved_doc r)) = 1) \<and>
   (\<exists>r. extract_pdf_text_to_docx demo_env (asc ''two.pdf'') (asc ''out'') None True False
          (asc ''SimSun'') 12 = Inr r \<and>
        length (paragraphs (body (saved_doc r))) = 2 \<and> page_breaks (body (saved_doc r)) = 1) \<and>
   (\<exists>r. convert_pdf_to_docx_mac_vision demo_env (asc ''two.pdf'') (asc ''out'') 300 True False
          (asc ''SimSun'') 12 = Inr r \<and>
        length (paragraphs (body (saved_doc r))) = 2 \<and> page_breaks (body (saved_doc r)) = 1)"
proof -
  obtain r1 r2 r3 where
    r1: "convert_pdf_to_docx demo_env (asc ''two.pdf'') (asc ''out'') (asc ''eng'') 300 None
          (asc ''tesseract'') None True False (asc ''SimSun'') 12 [1] = Inr r1"
    and r2: "extract_pdf_text_to_docx demo_env (asc ''two.pdf'') (asc ''out'') None True False
          (asc ''SimSun'') 12 = Inr r2"
    and r3: "convert_pdf_to_docx_mac_vision demo_env (asc ''two.pdf'') (asc ''out'') 300 True False
          (asc ''SimSun'') 12 = Inr r3"
    using demo_convert_runs demo_extract_runs demo_mac_runs by blast
  note th = pagination [where E = demo_env and pdf_path = "asc ''two.pdf''"
      and output_path = "asc ''out''" and lang = "asc ''eng''" and dpi = 300
      and poppler_path = None and ocr_engine = "asc ''tesseract''" and max_workers = None
      and cb = True and auto_format = False and font_name = "asc ''SimSun''"
      and font_size_pt = 12 and sched = "[1]" and remove_tokens = None
      and ?r1.0 = r1 and ?r2.0 = r2 and ?r3.0 = r3]
  from th r1 obtain pts1 where p1: "paginated pts1 (saved_doc r1)"
    and l1: "length (pdf_to_images demo_env (asc ''two.pdf'') 300 None) = length pts1"
    by (auto dest: list_all2_lengthD)
  from th r2 have p2: "paginated (map (text_layer_page None False)
      (pdfplumber_pages demo_env (asc ''two.pdf''))) (saved_doc r2)" by blast
  have l2: "length (pdfplumber_pages demo_env (asc ''two.pdf'')) = 2"
    by (simp add: demo_env_def)
  from th r3 obtain fitz_open pts3 where f: "fitz demo_env = Some fitz_open"
    and p3: "paginated pts3 (saved_doc r3)"
    and l3: "length (fitz_open (asc ''two.pdf'') 300) = length pts3"
    by (auto dest: list_all2_lengthD)
  from f have "fitz_open (asc ''two.pdf'') 300 = [1, 2]" by (auto simp: demo_env_def)
  with l3 have n3: "length pts3 = 2" by simp
  from l1 have n1: "length pts1 = 2" by (simp add: demo_images)
  from p1 n1 p2 l2 p3 n3 r1 r2 r3 show ?thesis
    by (simp add: paginated_def paragraphs_page_blocks page_breaks_page_blocks)
qed

theorem output_path_extension_witness:
  "(\<exists>r. convert_pdf_to_docx demo_env (asc ''two.pdf'') (asc ''out.DOCX'') (asc ''eng'') 300 None
          (asc ''tesseract'') None True False (asc ''SimSun'') 12 [1] = Inr r \<and>
        saved_path r = asc ''out.DOCX'' \<and> returned_path r = asc ''/out.DOCX'') \<and>
   (\<exists>r. extract_pdf_text_to_docx demo_env (asc ''two.pdf'') (asc ''out.DOCX'') None True False
          (asc ''SimSun'') 12 = Inr r \<and>
        saved_path r = asc ''out.DOCX'' \<and> returned_path r = asc ''/out.DOCX'') \<and>
   (\<exists>r. convert_pdf_to_docx_mac_vision demo_env (asc ''two.pdf'') (asc ''out.DOCX'') 300 True False
          (asc ''SimSun'') 12 = Inr r \<and>
        saved_path r = asc ''out.DOCX'' \<and> returned_path r = asc ''/out.DOCX'')"
proof -
  obtain r1 r2 r3 where
    r1: "convert_pdf_to_docx demo_env (asc ''two.pdf'') (asc ''out.DOCX'') (asc ''eng'') 300 None
          (asc ''tesseract'') None True False (asc ''SimSun'') 12 [1] = Inr r1"
    and r2: "extract_pdf_text_to_docx demo_env (asc ''two.pdf'') (asc ''out.DOCX'') None True False
          (asc ''SimSun'') 12 = Inr r2"
    and r3: "convert_pdf_to_docx_mac_vision demo_env (asc ''two.pdf'') (asc ''out.DOCX'') 300 True
          False (asc ''SimSun'') 12 = Inr r3"
    using demo_convert_runs demo_extract_runs demo_mac_runs by blast
  have s: "has_docx_suffix (asc ''out.DOCX'')"
    by (simp add: has_docx_suffix_def asc_def)
  have a: "abspath demo_env p = 47 # p" for p
    by (simp add: demo_env_def)
  note th = output_path_extension [OF demo_lower_table_ok, where pdf_path = "asc ''two.pdf''"
      and output_path = "asc ''out.DOCX''" and lang = "asc ''eng''" and dpi = 300
      and poppler_path = None and ocr_engine = "asc ''tesseract''" and max_workers = None
      and cb = True and auto_format = False and font_name = "asc ''SimSun''"
      and font_size_pt = 12 and sched = "[1]" and remove_tokens = None
      and ?r1.0 = r1 and ?r2.0 = r2 and ?r3.0 = r3]
  from th r1 r2 r3 have "saved_as demo_env (asc ''out.DOCX'') r1"
    "saved_as demo_env (asc ''out.DOCX'') r2" "saved_as demo_env (asc ''out.DOCX'') r3"
    by blast+
  with r1 r2 r3 show ?thesis
    by (simp add: saved_as_def s a) (simp add: asc_def)
qed

end
